theory Spec2Isabelle
  imports Main "HOL-Library.Word" "HOL-Library.Signed_Division"
begin

section \<open>The environment of the benchmark\<close>

text \<open>
  The repository holds two programs, \<^verbatim>\<open>program.cxx\<close> and \<^verbatim>\<open>program_optimized.cxx\<close>, each
  a single \<^verbatim>\<open>main\<close> with a few formatting helpers. Both read the clocks, standard input and
  the file system, and write to the console, to files and to the sleep timer. Everything
  the programs take from outside is a field of \<open>env\<close>; everything they change is a field
  of \<open>world\<close>.

  A \<open>time_point\<close> is a number of nanoseconds since the epoch of its clock. The clocks are
  given as the sequence of values their successive calls return: \<open>system_clock env k\<close> is
  what call number \<open>k\<close> of \<^verbatim>\<open>std::chrono::system_clock::now()\<close> returns, and likewise for
  \<^verbatim>\<open>steady_clock\<close>. The effect of time passing, of sleeping and of clock adjustments is in
  these sequences. The text on standard input is an argument of \<open>main\<close>. The functions of
  the C and C++ libraries that format a time or a
  number according to the time zone and the locale are fields as well:
  \<^item> \<open>tm_sec\<close>: the field \<^verbatim>\<open>tm_sec\<close> that \<^verbatim>\<open>localtime_r\<close> computes (between 0 and 60);
  \<^item> \<open>put_time\<close>: the local time printed with \<^verbatim>\<open>%Y-%m-%d %H:%M:%S\<close>;
  \<^item> \<open>strftime\<close>: the local time printed with \<^verbatim>\<open>%Y%m%d_%I_%M_%S\<close>;
  \<^item> \<open>grouped\<close>: a number printed under the user's default \<^verbatim>\<open>std::locale\<close>;
  \<^item> \<open>count_ms\<close>: a difference of two system-clock values, converted to
    \<^verbatim>\<open>duration<double>\<close> and cast to whole milliseconds;
  \<^item> \<open>path_exists\<close>: \<^verbatim>\<open>fs::exists\<close> once \<^verbatim>\<open>fs::create_directories\<close> has run;
  \<^item> \<open>is_open\<close>: whether a \<^verbatim>\<open>std::ofstream\<close> on that path opens.
  Library calls are taken to return: an exception out of \<^verbatim>\<open>fs::current_path\<close>,
  \<^verbatim>\<open>fs::create_directories\<close> or the constructor of \<^verbatim>\<open>std::locale\<close> is outside this development, and so is
  a write that fails on a stream that did open.
\<close>

type_synonym time_point = int

record env =
  system_clock :: "nat \<Rightarrow> time_point"
  steady_clock :: "nat \<Rightarrow> time_point"
  tm_sec :: "time_point \<Rightarrow> nat"
  put_time :: "time_point \<Rightarrow> string"
  strftime :: "time_point \<Rightarrow> string"
  grouped :: "nat \<Rightarrow> string"
  count_ms :: "time_point \<Rightarrow> int"
  current_path :: string
  path_exists :: "string \<Rightarrow> bool"
  is_open :: "string \<Rightarrow> bool"

record world =
  sys_reads :: nat
  steady_reads :: nat
  cout :: string
  cerr :: string
  slept :: "nat list"
  files :: "string \<Rightarrow> string option"

definition endl :: string where
  "endl = [CHR 0x0A]"

definition tab :: string where
  "tab = [CHR 0x09]"

definition system_now :: "env \<Rightarrow> world \<Rightarrow> time_point \<times> world" where
  "system_now env w = (system_clock env (sys_reads w), w\<lparr>sys_reads := Suc (sys_reads w)\<rparr>)"

definition steady_now :: "env \<Rightarrow> world \<Rightarrow> time_point \<times> world" where
  "steady_now env w =
     (steady_clock env (steady_reads w), w\<lparr>steady_reads := Suc (steady_reads w)\<rparr>)"

definition cout_put :: "string \<Rightarrow> world \<Rightarrow> world" where
  "cout_put s w = w\<lparr>cout := cout w @ s\<rparr>"

definition cerr_put :: "string \<Rightarrow> world \<Rightarrow> world" where
  "cerr_put s w = w\<lparr>cerr := cerr w @ s\<rparr>"

text \<open>\<^verbatim>\<open>std::this_thread::sleep_for(std::chrono::milliseconds(d))\<close>: the request is recorded.\<close>

definition sleep_for :: "nat \<Rightarrow> world \<Rightarrow> world" where
  "sleep_for d w = w\<lparr>slept := slept w @ [d]\<rparr>"

text \<open>
  \<^verbatim>\<open>std::ofstream ofs(path); if (ofs.is_open()) ofs << text;\<close> replaces the file, and
  \<^verbatim>\<open>std::ofstream itLog(path, std::ios::app); itLog << text;\<close> appends to it. The second form
  has no test in the source: output to a stream that did not open does nothing.
\<close>

definition ofstream_write :: "env \<Rightarrow> string \<Rightarrow> string \<Rightarrow> world \<Rightarrow> world" where
  "ofstream_write env path text w =
     (if is_open env path then w\<lparr>files := (files w)(path \<mapsto> text)\<rparr> else w)"

definition ofstream_app :: "env \<Rightarrow> string \<Rightarrow> string \<Rightarrow> world \<Rightarrow> world" where
  "ofstream_app env path text w =
     (if is_open env path
      then w\<lparr>files := (files w)(path \<mapsto> (case files w path of None \<Rightarrow> [] | Some old \<Rightarrow> old) @ text)\<rparr>
      else w)"

subsection \<open>Printing numbers\<close>

text \<open>
  \<open>dec\<close> is \<^verbatim>\<open>operator<<\<close> on an unsigned integer in the classic locale, \<open>dec_int\<close> the same on
  a \<^verbatim>\<open>long long\<close>, and \<open>setw2\<close> is the output after \<^verbatim>\<open>std::setw(2) << std::setfill('0')\<close>.
\<close>

fun dec :: "nat \<Rightarrow> string" where
  "dec n = (if n < 10 then [''0123456789'' ! n]
            else dec (n div 10) @ [''0123456789'' ! (n mod 10)])"

declare dec.simps [simp del]

definition dec_int :: "int \<Rightarrow> string" where
  "dec_int k = (if k < 0 then ''-'' @ dec (nat (- k)) else dec (nat k))"

definition setw2 :: "nat \<Rightarrow> string" where
  "setw2 n = replicate (2 - length (dec n)) CHR ''0'' @ dec n"

definition stars :: "nat \<Rightarrow> string" where
  "stars n = replicate n CHR ''*''"

subsection \<open>The helpers of both files\<close>

definition formatWithCommas :: "env \<Rightarrow> 'w::len word \<Rightarrow> string" where
  "formatWithCommas env v = grouped env (unat v)"

text \<open>
  \<^verbatim>\<open>getCurrentSecond\<close> (only in \<^verbatim>\<open>program.cxx\<close>) reads the system clock and returns \<^verbatim>\<open>tm_sec\<close>
  as an \<^verbatim>\<open>n_type\<close>. Its callers keep the value in an \<^verbatim>\<open>int\<close> or an \<^verbatim>\<open>n_type\<close>; the
  conversions between the two are the identity on 0..60.
\<close>

definition getCurrentSecond :: "env \<Rightarrow> world \<Rightarrow> 'w::len word \<times> world" where
  "getCurrentSecond env w = (let (now, w) = system_now env w in (of_nat (tm_sec env now), w))"

definition dateTimeToString :: "env \<Rightarrow> time_point \<Rightarrow> string" where
  "dateTimeToString env tp = put_time env tp"

definition getFileTimestamp :: "env \<Rightarrow> world \<Rightarrow> string \<times> world" where
  "getFileTimestamp env w = (let (now, w) = system_now env w in (strftime env now, w))"

section \<open>One cycle\<close>

subsection \<open>The alignment pause (step 7)\<close>

text \<open>The two lines written for a pause: one to the console, one to the buffer.\<close>

definition pausing_line :: "nat \<Rightarrow> string" where
  "pausing_line pauseMs = ''Pausing for '' @ dec pauseMs @ ''ms'' @ endl"

definition paused_line :: "nat \<Rightarrow> string" where
  "paused_line pauseMs = ''Paused for '' @ dec pauseMs @ ''ms'' @ endl"

text \<open>
  \<^verbatim>\<open>program.cxx\<close>, lines 149 to 164. \<^verbatim>\<open>pauseMs\<close> is computed from one call of
  \<^verbatim>\<open>getCurrentSecond\<close> before the loop and from one more after each sleep; the test
  \<^verbatim>\<open>currentSec % 8u != 0u\<close> is on another call, made at the head of the loop.
\<close>

partial_function (option) pause_program ::
  "env \<Rightarrow> 'w::len word \<Rightarrow> string \<Rightarrow> world \<Rightarrow> (string \<times> world) option"
where
  "pause_program env pauseMs buffer w =
     (let (currentSec :: 'w word, w) = getCurrentSecond env w in
      if currentSec mod 8 \<noteq> 0 then Some (buffer, w)
      else
        let w = cout_put (pausing_line (unat pauseMs)) w;
            buffer = buffer @ paused_line (unat pauseMs);
            w = sleep_for (unat pauseMs) w;
            (s :: 'w word, w) = getCurrentSecond env w
        in pause_program env (s * 100) buffer w)"

declare pause_program.simps [code]

text \<open>
  \<^verbatim>\<open>program_optimized.cxx\<close>, lines 160 to 181. The local time is sampled once before the
  loop and once after each sleep; \<open>sec\<close> is \<^verbatim>\<open>localTm.tm_sec\<close>, tested and multiplied by 100.
  The product is computed in \<^verbatim>\<open>n_type\<close>; \<^verbatim>\<open>tm_sec\<close> being at most 60, it is the product of
  the natural numbers.
\<close>

partial_function (option) pause_optimized ::
  "env \<Rightarrow> nat \<Rightarrow> string \<Rightarrow> world \<Rightarrow> (string \<times> world) option"
where
  "pause_optimized env sec buffer w =
     (if sec mod 8 = 0 then
        let pauseMs = sec * 100;
            w = cout_put (pausing_line pauseMs) w;
            buffer = buffer @ paused_line pauseMs;
            w = sleep_for pauseMs w;
            (nowSys, w) = system_now env w
        in pause_optimized env (tm_sec env nowSys) buffer w
      else Some (buffer, w))"

declare pause_optimized.simps [code]

subsection \<open>The timed counting loop (steps 8 and 9)\<close>

definition progress_line :: "env \<Rightarrow> 'w::len word \<Rightarrow> 'w word \<Rightarrow> 'w word \<Rightarrow> time_point \<Rightarrow> string" where
  "progress_line env cycle cycles i progressTp =
     ''Cycle '' @ formatWithCommas env cycle @ '' of '' @ formatWithCommas env cycles
       @ '' Iteration '' @ formatWithCommas env i @ '' '' @ dateTimeToString env progressTp @ endl"

text \<open>
  \<^verbatim>\<open>program.cxx\<close>, lines 181 to 197: the loop runs while the second of the wall clock
  is the one it started in. Every pass reads the wall clock at its end; a pass that
  completes a hundred thousand iterations reads it twice more.
\<close>

partial_function (option) count_program ::
  "env \<Rightarrow> 'w::len word \<Rightarrow> 'w word \<Rightarrow> 'w word \<Rightarrow> 'w word \<Rightarrow> 'w word \<Rightarrow> 'w word \<Rightarrow> string \<Rightarrow> world
     \<Rightarrow> ('w word \<times> string \<times> world) option"
where
  "count_program env cycle cycles startSecond currentSecond iterations i buffer w =
     (if currentSecond = startSecond then
        let iterations = i + 1;
            i = i + 1
        in if i mod 100000 = 0 then
             let (currentSecond :: 'w word, w) = getCurrentSecond env w;
                 (progressTp, w) = system_now env w;
                 buffer = buffer @ progress_line env cycle cycles i progressTp;
                 (currentSecond :: 'w word, w) = getCurrentSecond env w
             in count_program env cycle cycles startSecond currentSecond iterations i buffer w
           else
             let (currentSecond :: 'w word, w) = getCurrentSecond env w
             in count_program env cycle cycles startSecond currentSecond iterations i buffer w
      else Some (iterations, buffer, w))"

declare count_program.simps [code]

text \<open>
  \<^verbatim>\<open>program_optimized.cxx\<close>, lines 197 to 210: the loop runs while the steady clock is
  before \<^verbatim>\<open>endTp\<close>.
\<close>

partial_function (option) count_optimized ::
  "env \<Rightarrow> 'w::len word \<Rightarrow> 'w word \<Rightarrow> time_point \<Rightarrow> 'w word \<Rightarrow> 'w word \<Rightarrow> string \<Rightarrow> world
     \<Rightarrow> ('w word \<times> string \<times> world) option"
where
  "count_optimized env cycle cycles endTp iterations i buffer w =
     (let (now, w) = steady_now env w in
      if now < endTp then
        let iterations = i + 1;
            i = i + 1
        in if i mod 100000 = 0 then
             let (progressTp, w) = system_now env w;
                 buffer = buffer @ progress_line env cycle cycles i progressTp
             in count_optimized env cycle cycles endTp iterations i buffer w
           else count_optimized env cycle cycles endTp iterations i buffer w
      else Some (iterations, buffer, w))"

declare count_optimized.simps [code]

definition ready_line :: "string \<Rightarrow> string" where
  "ready_line nowStr = ''Ready to go ... '' @ nowStr @ endl"

text \<open>
  Steps 8 and 9 of each file, from the line after the pause to the exit of the counting
  loop. The result is the iteration count, the start time as printed, and the buffer.
\<close>

definition timed_program ::
  "env \<Rightarrow> 'w::len word \<Rightarrow> 'w word \<Rightarrow> string \<Rightarrow> world \<Rightarrow> ('w word \<times> string \<times> string \<times> world) option"
where
  "timed_program env cycle cycles buffer w =
     (let (nowTp, w) = system_now env w;
          nowStr = dateTimeToString env nowTp;
          w = cout_put (ready_line nowStr) w;
          (startTp, w) = system_now env w;
          startStr = dateTimeToString env startTp;
          (startSecond :: 'w word, w) = getCurrentSecond env w
      in case count_program env cycle cycles startSecond startSecond 0 0 buffer w of
           None \<Rightarrow> None
         | Some (iterations, buffer, w) \<Rightarrow> Some (iterations, startStr, buffer, w))"

definition second :: int where
  "second = 1000000000"

definition timed_optimized ::
  "env \<Rightarrow> 'w::len word \<Rightarrow> 'w word \<Rightarrow> string \<Rightarrow> world \<Rightarrow> ('w word \<times> string \<times> string \<times> world) option"
where
  "timed_optimized env cycle cycles buffer w =
     (let (nowTp, w) = system_now env w;
          (startTp, w) = steady_now env w;
          endTp = startTp + 1 * second;
          nowStr = dateTimeToString env nowTp;
          (startSys, w) = system_now env w;
          startStr = dateTimeToString env startSys;
          w = cout_put (ready_line nowStr) w
      in case count_optimized env cycle cycles endTp 0 0 buffer w of
           None \<Rightarrow> None
         | Some (iterations, buffer, w) \<Rightarrow> Some (iterations, startStr, buffer, w))"

text \<open>Steps 7 to 9 together: the part of the cycle in which the two files differ.\<close>

definition measure_program ::
  "env \<Rightarrow> 'w::len word \<Rightarrow> 'w word \<Rightarrow> world \<Rightarrow> ('w word \<times> string \<times> string \<times> world) option"
where
  "measure_program env cycle cycles w =
     (let (s :: 'w word, w) = getCurrentSecond env w;
          pauseMs = s * 100
      in case pause_program env pauseMs [] w of
           None \<Rightarrow> None
         | Some (buffer, w) \<Rightarrow> timed_program env cycle cycles buffer w)"

definition measure_optimized ::
  "env \<Rightarrow> 'w::len word \<Rightarrow> 'w word \<Rightarrow> world \<Rightarrow> ('w word \<times> string \<times> string \<times> world) option"
where
  "measure_optimized env cycle cycles w =
     (let (nowSys, w) = system_now env w
      in case pause_optimized env (tm_sec env nowSys) [] w of
           None \<Rightarrow> None
         | Some (buffer, w) \<Rightarrow> timed_optimized env cycle cycles buffer w)"

subsection \<open>The whole cycle (steps 6 to 10)\<close>

text \<open>
  \<open>path_append\<close> is \<^verbatim>\<open>operator/\<close> of \<^verbatim>\<open>fs::path\<close> for a relative right-hand side on a POSIX
  system.
\<close>

definition path_append :: "string \<Rightarrow> string \<Rightarrow> string" where
  "path_append p q = (if p = [] \<or> last p = CHR ''/'' then p @ q else p @ ''/'' @ q)"

definition logDetailDir :: "env \<Rightarrow> string" where
  "logDetailDir env = path_append (current_path env) ''CycleLogDetail''"

definition iterationDir :: "env \<Rightarrow> string" where
  "iterationDir env = path_append (current_path env) ''CycleLog''"

definition iterationLogPath :: "env \<Rightarrow> string" where
  "iterationLogPath env = path_append (iterationDir env) ''Iteration.txt''"

definition detailFilePath :: "env \<Rightarrow> string \<Rightarrow> 'w::len word \<Rightarrow> 'w word \<Rightarrow> string" where
  "detailFilePath env stamp cycles cycle =
     path_append (logDetailDir env)
       (''T '' @ stamp @ '' '' @ setw2 (unat cycles) @ '' - '' @ setw2 (unat cycle) @ ''.txt'')"

text \<open>
  The record of one executed cycle: what the specification calls a \<^verbatim>\<open>CycleResult\<close>. The
  programs keep no such value; the list of them returned by \<open>cycle_loop\<close> below records
  which passes of the \<^verbatim>\<open>for\<close> loop ran, in order.
\<close>

record (overloaded) 'w cycle_result =
  cycleIndex :: "'w word"
  iterationCount :: "'w word"
  startTimestamp :: string
  endTimestamp :: string

definition iterations_line :: "env \<Rightarrow> 'w::len word \<Rightarrow> string \<Rightarrow> string \<Rightarrow> string" where
  "iterations_line env iterations startStr endStr =
     ''Iterations '' @ formatWithCommas env iterations @ '' Start '' @ startStr
       @ '' ... End '' @ endStr @ endl"

definition log_block :: "'w::len word \<Rightarrow> 'w word \<Rightarrow> string \<Rightarrow> string \<Rightarrow> string" where
  "log_block cycle iterations startStr endStr =
     ''***'' @ tab @ dec (unat cycle) @ tab @ stars 60 @ endl
       @ startStr @ endl
       @ dec (unat iterations) @ endl
       @ endStr @ endl @ endl"

text \<open>
  The body of the \<^verbatim>\<open>for\<close> loop. \<open>measurement\<close> is steps 7 to 9 of one of the two files; the
  rest of the body is the same text in both (\<^verbatim>\<open>program.cxx\<close> lines 131 to 147 and 199 to
  231, \<^verbatim>\<open>program_optimized.cxx\<close> lines 139 to 156 and 212 to 243).
\<close>

definition running_line :: "'w::len word \<Rightarrow> 'w word \<Rightarrow> string" where
  "running_line cycle cycles =
     stars 76 @ endl
     @ ''Running Cycle '' @ setw2 (unat cycle) @ '' of '' @ setw2 (unat cycles) @ endl
     @ stars 44 @ endl"

type_synonym 'w measurement =
  "env \<Rightarrow> 'w word \<Rightarrow> 'w word \<Rightarrow> world \<Rightarrow> ('w word \<times> string \<times> string \<times> world) option"

definition run_cycle ::
  "'w::len measurement \<Rightarrow> env \<Rightarrow> 'w word \<Rightarrow> 'w word \<Rightarrow> 'w word \<Rightarrow> world
     \<Rightarrow> ('w cycle_result \<times> 'w word \<times> world) option"
where
  "run_cycle measurement env cycles cycle sumOfIterations w =
     (let w = cout_put (running_line cycle cycles) w;
          (stamp, w) = getFileTimestamp env w;
          path = detailFilePath env stamp cycles cycle
      in case measurement env cycle cycles w of
           None \<Rightarrow> None
         | Some (iterations, startStr, buffer, w) \<Rightarrow>
             let sumOfIterations = sumOfIterations + iterations;
                 (endTp, w) = system_now env w;
                 endStr = dateTimeToString env endTp;
                 buffer = buffer @ iterations_line env iterations startStr endStr;
                 w = cout_put (path @ endl) w;
                 w = ofstream_write env path buffer w;
                 w = cout_put buffer w;
                 w = ofstream_app env (iterationLogPath env)
                       (log_block cycle iterations startStr endStr) w
             in Some (\<lparr>cycleIndex = cycle, iterationCount = iterations,
                        startTimestamp = startStr, endTimestamp = endStr\<rparr>,
                      sumOfIterations, w))"

text \<open>
  \<^verbatim>\<open>for(n_type cycle = 1u; cycle <= cycles; ++cycle)\<close>, entered at \<open>cycle\<close>. The counter is
  an \<^verbatim>\<open>n_type\<close>: \<open>cycle + 1\<close> wraps around.
\<close>

partial_function (option) cycle_loop ::
  "'w::len measurement \<Rightarrow> env \<Rightarrow> 'w word \<Rightarrow> 'w word \<Rightarrow> 'w word \<Rightarrow> 'w cycle_result list \<Rightarrow> world
     \<Rightarrow> ('w cycle_result list \<times> 'w word \<times> world) option"
where
  "cycle_loop measurement env cycles cycle sumOfIterations results w =
     (if cycle \<le> cycles then
        case run_cycle measurement env cycles cycle sumOfIterations w of
          None \<Rightarrow> None
        | Some (r, sumOfIterations, w) \<Rightarrow>
            cycle_loop measurement env cycles (cycle + 1) sumOfIterations (results @ [r]) w
      else Some (results, sumOfIterations, w))"

declare cycle_loop.simps [code]

section \<open>Reading the cycle count (step 5)\<close>

text \<open>
  \<^verbatim>\<open>std::cin >> cycles\<close> is the standard library's extraction into an unsigned integer,
  which is not code of the repository. \<open>cin_extract\<close> follows what the library does
  (\<^verbatim>\<open>num_get\<close>, with the default flags of \<^verbatim>\<open>std::cin\<close>): leading white space is skipped, one
  sign is accepted, the longest run of decimal digits is read, and
  \<^item> no digit at all sets \<^verbatim>\<open>failbit\<close>;
  \<^item> digits whose value is above the largest \<^verbatim>\<open>n_type\<close> set \<^verbatim>\<open>failbit\<close>;
  \<^item> reaching the end of the input while reading sets \<^verbatim>\<open>eofbit\<close>;
  \<^item> otherwise the value is stored, negated in \<^verbatim>\<open>n_type\<close> when the sign was a minus (the
    library converts by the rules of \<^verbatim>\<open>strtoull\<close>).
  The result is \<open>Some\<close> of the stored value when \<^verbatim>\<open>std::cin.good()\<close> holds afterwards and
  \<open>None\<close> otherwise. What a failed extraction leaves in \<^verbatim>\<open>cycles\<close> does not matter: the
  program overwrites it.
\<close>

definition isspace :: "char \<Rightarrow> bool" where
  "isspace c \<longleftrightarrow> c \<in> set [CHR '' '', CHR 0x09, CHR 0x0A, CHR 0x0B, CHR 0x0C, CHR 0x0D]"

definition isdigit :: "char \<Rightarrow> bool" where
  "isdigit c \<longleftrightarrow> c \<in> set ''0123456789''"

definition digit_value :: "char \<Rightarrow> nat" where
  "digit_value c = length (takeWhile (\<lambda>d. d \<noteq> c) ''0123456789'')"

definition digits_value :: "string \<Rightarrow> nat" where
  "digits_value ds = foldl (\<lambda>a c. 10 * a + digit_value c) 0 ds"

definition strip_sign :: "string \<Rightarrow> bool \<times> string" where
  "strip_sign s =
     (case s of
        [] \<Rightarrow> (False, s)
      | c # r \<Rightarrow> if c = CHR ''-'' then (True, r) else if c = CHR ''+'' then (False, r) else (False, s))"

definition cin_extract :: "string \<Rightarrow> 'w::len word option" where
  "cin_extract input =
     (let (negative, s) = strip_sign (dropWhile isspace input);
          ds = takeWhile isdigit s;
          rest = dropWhile isdigit s;
          n = digits_value ds
      in if ds = [] then None
         else if 2 ^ LENGTH('w) - 1 < n then None
         else if rest = [] then None
         else Some (if negative then - of_nat n else of_nat n))"

text \<open>\<^verbatim>\<open>program.cxx\<close> lines 105 to 111, \<^verbatim>\<open>program_optimized.cxx\<close> lines 111 to 119.\<close>

definition invalid_input_line :: string where
  "invalid_input_line = ''Invalid input; defaulting to 1.'' @ endl"

definition read_cycles :: "string \<Rightarrow> world \<Rightarrow> 'w::len word \<times> world" where
  "read_cycles input w =
     (case cin_extract input of
        None \<Rightarrow> (1, cerr_put invalid_input_line w)
      | Some cycles \<Rightarrow>
          if cycles < 1 then (1, cerr_put invalid_input_line w)
          else (cycles, w))"

section \<open>The final summary (step 11)\<close>

text \<open>
  \<^verbatim>\<open>long long totalMs\<close> is split into days, hours, minutes, seconds and milliseconds with the
  C++ operators \<^verbatim>\<open>/\<close> and \<^verbatim>\<open>%\<close>, which truncate towards zero: \<open>sdiv\<close> and \<open>smod\<close> on \<open>int\<close>.
  No step of the computation can leave the range of \<^verbatim>\<open>long long\<close>.
\<close>

record breakdown =
  days :: int
  hours :: int
  minutes :: int
  seconds :: int
  ms :: int

definition elapsed_breakdown :: "int \<Rightarrow> breakdown" where
  "elapsed_breakdown totalMs =
     (let days = totalMs sdiv (1000 * 60 * 60 * 24);
          rem = totalMs smod (1000 * 60 * 60 * 24);
          hours = rem sdiv (1000 * 60 * 60);
          rem = rem smod (1000 * 60 * 60);
          minutes = rem sdiv (1000 * 60);
          rem = rem smod (1000 * 60);
          seconds = rem sdiv 1000;
          ms = rem smod 1000
      in \<lparr>days = days, hours = hours, minutes = minutes, seconds = seconds, ms = ms\<rparr>)"

text \<open>\<^verbatim>\<open>n_type avgOpsPerSec = (cycles > 0) ? (sumOfIterations / cycles) : 0;\<close>\<close>

definition avgOpsPerSec :: "'w::len word \<Rightarrow> 'w word \<Rightarrow> 'w word" where
  "avgOpsPerSec sumOfIterations cycles = (if cycles > 0 then sumOfIterations div cycles else 0)"

definition time_line :: "breakdown \<Rightarrow> string" where
  "time_line b =
     ''Time: '' @ dec_int (days b) @ '' days '' @ dec_int (hours b) @ '' hrs ''
       @ dec_int (minutes b) @ '' min '' @ dec_int (seconds b) @ '' sec ''
       @ dec_int (ms b) @ '' ms'' @ endl"

record (overloaded) 'w run_summary =
  totalIterations :: "'w word"
  cycleCount :: "'w word"
  averageIterationsPerCycle :: "'w word"
  elapsedBreakdown :: breakdown

text \<open>
  The summary as printed on the console, with the numbers grouped, and as appended to
  the iteration log, with the numbers plain.
\<close>

definition summary_cout ::
  "env \<Rightarrow> 'w::len word \<Rightarrow> 'w word \<Rightarrow> 'w word \<Rightarrow> string \<Rightarrow> string \<Rightarrow> breakdown \<Rightarrow> string"
where
  "summary_cout env sumOfIterations cycles avg cycleStartStr cycleEndStr b =
     ''******'' @ tab @ ''Sum: '' @ formatWithCommas env sumOfIterations
       @ '' operations across '' @ formatWithCommas env cycles @ '' cycles *********''
       @ endl @ endl
     @ ''Average: '' @ formatWithCommas env avg @ '' operations per second **********''
       @ endl @ endl
     @ ''Cycle started: '' @ cycleStartStr @ '' ... Cycle ended: '' @ cycleEndStr
       @ '' **********'' @ endl
     @ time_line b"

definition summary_log ::
  "'w::len word \<Rightarrow> 'w word \<Rightarrow> 'w word \<Rightarrow> string \<Rightarrow> string \<Rightarrow> breakdown \<Rightarrow> string"
where
  "summary_log sumOfIterations cycles avg cycleStartStr cycleEndStr b =
     ''******'' @ tab @ ''Sum: '' @ dec (unat sumOfIterations)
       @ '' operations across '' @ dec (unat cycles) @ '' cycles *********'' @ endl
     @ ''Cycle started: '' @ cycleStartStr @ '' ... Cycle ended: '' @ cycleEndStr
       @ '' **********'' @ endl
     @ ''Average: '' @ dec (unat avg) @ '' operations per second **********'' @ endl
     @ time_line b
     @ replicate 33 CHR ''_'' @ endl @ endl"

definition final_summary ::
  "env \<Rightarrow> 'w::len word \<Rightarrow> time_point \<Rightarrow> 'w word \<Rightarrow> world \<Rightarrow> 'w run_summary \<times> world"
where
  "final_summary env cycles cycleStartTime sumOfIterations w =
     (let (cycleEndTime, w) = system_now env w;
          totalMs = count_ms env (cycleEndTime - cycleStartTime);
          b = elapsed_breakdown totalMs;
          avg = avgOpsPerSec sumOfIterations cycles;
          cycleStartStr = dateTimeToString env cycleStartTime;
          cycleEndStr = dateTimeToString env cycleEndTime;
          w = cout_put (summary_cout env sumOfIterations cycles avg cycleStartStr cycleEndStr b) w;
          w = ofstream_app env (iterationLogPath env)
                (summary_log sumOfIterations cycles avg cycleStartStr cycleEndStr b) w
      in (\<lparr>totalIterations = sumOfIterations, cycleCount = cycles,
            averageIterationsPerCycle = avg, elapsedBreakdown = b\<rparr>, w))"

section \<open>The program\<close>

text \<open>
  \<open>quoted\<close> is how \<^verbatim>\<open>operator<<\<close> prints an \<^verbatim>\<open>fs::path\<close>. A run either stops at the directory
  check (\<^verbatim>\<open>return 1\<close>) or completes (\<^verbatim>\<open>return 0\<close>); a run that never ends has no outcome.
\<close>

definition quoted :: "string \<Rightarrow> string" where
  "quoted p =
     [CHR 0x22] @ concat (map (\<lambda>c. if c = CHR 0x22 \<or> c = CHR 0x5C then [CHR 0x5C, c] else [c]) p)
       @ [CHR 0x22]"

record (overloaded) 'w outcome =
  exit_code :: int
  cycle_results :: "'w cycle_result list"
  summary :: "'w run_summary option"

definition banner :: string where
  "banner =
     stars 50 @ endl
     @ ''Gautier Iteration Test'' @ endl
     @ ''Provides an informal assessment of operations per second on a given system'' @ endl
     @ ''Essentially how fast can C++ code execute today'' @ endl
     @ ''Helps in building better estimates for capacity planning and design'' @ endl
     @ stars 50 @ endl
     @ ''How many times you want the test to run?'' @ endl
     @ ''Type number then <enter>:  ''"

definition missing_line :: string where
  "missing_line = ''Directories do not exist'' @ endl @ ''Missing:'' @ endl"

definition running_runs_line :: "'w::len word \<Rightarrow> string" where
  "running_runs_line cycles = ''Running '' @ dec (unat cycles) @ '' test runs'' @ endl"

definition log_header :: "'w::len word \<Rightarrow> string \<Rightarrow> string" where
  "log_header cycles nowStr =
     stars 33 @ endl
     @ ''Cycles: '' @ dec (unat cycles) @ tab @ nowStr @ endl
     @ stars 28 @ endl"

text \<open>
  Steps 4 and 5 and the header of the iteration log (\<^verbatim>\<open>program.cxx\<close> lines 94 to 126):
  the result is the cycle count, \<^verbatim>\<open>cycleStartTime\<close> and the world.
\<close>

definition startup :: "env \<Rightarrow> string \<Rightarrow> world \<Rightarrow> 'w::len word \<times> time_point \<times> world" where
  "startup env input w =
     (let w = cout_put banner w;
          (cycles :: 'w word, w) = read_cycles input w;
          w = cout_put (running_runs_line cycles) w;
          (now, w) = system_now env w;
          w = ofstream_app env (iterationLogPath env)
                (log_header cycles (dateTimeToString env now)) w;
          (cycleStartTime, w) = system_now env w
      in (cycles, cycleStartTime, w))"

definition main ::
  "'w::len measurement \<Rightarrow> env \<Rightarrow> string \<Rightarrow> world \<Rightarrow> ('w outcome \<times> world) option"
where
  "main measurement env input w =
     (if \<not> path_exists env (logDetailDir env) \<or> \<not> path_exists env (iterationDir env) then
        let w = cerr_put missing_line w;
            w = (if \<not> path_exists env (logDetailDir env)
                 then cerr_put (quoted (logDetailDir env) @ endl) w else w);
            w = (if \<not> path_exists env (iterationDir env)
                 then cerr_put (quoted (iterationDir env) @ endl) w else w)
        in Some (\<lparr>exit_code = 1, cycle_results = [], summary = None\<rparr>, w)
      else
        let (cycles :: 'w word, cycleStartTime, w) = startup env input w
        in case cycle_loop measurement env cycles 1 0 [] w of
             None \<Rightarrow> None
           | Some (results, sumOfIterations, w) \<Rightarrow>
               let (s, w) = final_summary env cycles cycleStartTime sumOfIterations w
               in Some (\<lparr>exit_code = 0, cycle_results = results, summary = Some s\<rparr>, w))"

text \<open>The two programs of the repository.\<close>

definition program :: "env \<Rightarrow> string \<Rightarrow> world \<Rightarrow> ('w::len outcome \<times> world) option" where
  "program = main measure_program"

definition program_optimized ::
  "env \<Rightarrow> string \<Rightarrow> world \<Rightarrow> ('w::len outcome \<times> world) option"
where
  "program_optimized = main measure_optimized"

section \<open>The shape of a cycle's record\<close>

text \<open>
  The successive values of the counter \<^verbatim>\<open>i\<close> in \<open>n\<close> passes of a counting loop entered with
  the value \<open>i\<close>, and the values at which a progress line is written.
\<close>

fun counters :: "'w::len word \<Rightarrow> nat \<Rightarrow> 'w word list" where
  "counters i 0 = []"
| "counters i (Suc n) = (i + 1) # counters (i + 1) n"

definition sampled :: "'w::len word \<Rightarrow> bool" where
  "sampled i \<longleftrightarrow> i mod 100000 = 0"

text \<open>
  The number of calls of the wall clock in \<open>n\<close> passes of the loop of \<^verbatim>\<open>program.cxx\<close>: one
  at the end of every pass and two more in a pass that writes a progress line.
\<close>

definition reads_upto :: "'w::len word \<Rightarrow> nat \<Rightarrow> nat" where
  "reads_upto i n = sum_list (map (\<lambda>v. if sampled v then 3 else 1) (counters i n))"

text \<open>The second of the minute that call number \<open>j\<close> of the wall clock shows.\<close>

definition wall_second :: "env \<Rightarrow> nat \<Rightarrow> 'w::len word" where
  "wall_second env j = of_nat (tm_sec env (system_clock env j))"

text \<open>
  The detail file as the specification describes it: a line for every pause, a progress
  line for every hundred-thousandth iteration, each with the time it was written at, and
  the closing line with the iteration count, the start and the end.
\<close>

definition detail_text ::
  "env \<Rightarrow> 'w::len word \<Rightarrow> 'w word \<Rightarrow> nat list \<Rightarrow> nat \<Rightarrow> time_point list \<Rightarrow> 'w word
     \<Rightarrow> string \<Rightarrow> string \<Rightarrow> string"
where
  "detail_text env cycle cycles pauses n stamps iterations startStr endStr =
     concat (map paused_line pauses)
     @ concat (map2 (progress_line env cycle cycles) (filter sampled (counters 0 n)) stamps)
     @ iterations_line env iterations startStr endStr"

section \<open>Example environments\<close>

text \<open>
  \<open>ticking\<close> is an environment in which every call of the wall clock returns a time one
  second after the call before and every call of the steady clock a time half a second
  after the call before; the local time is UTC, numbers and times are printed plainly,
  the directories exist and every file opens. \<open>world0\<close> is the world before the program
  starts, on an empty file system.
\<close>

definition ticking :: env where
  "ticking =
     \<lparr>system_clock = (\<lambda>k. int k * 1000000000),
      steady_clock = (\<lambda>k. int k * 500000000),
      tm_sec = (\<lambda>t. nat (t div 1000000000) mod 60),
      put_time = (\<lambda>t. dec (nat (t div 1000000000))),
      strftime = (\<lambda>t. dec (nat (t div 1000000000))),
      grouped = dec,
      count_ms = (\<lambda>d. d div 1000000),
      current_path = ''/tmp'',
      path_exists = (\<lambda>p. True),
      is_open = (\<lambda>p. True)\<rparr>"

text \<open>An environment ticks when its clocks and its time zone are those of \<open>ticking\<close>.\<close>

definition ticks :: "env \<Rightarrow> bool" where
  "ticks env \<longleftrightarrow>
     system_clock env = system_clock ticking \<and> steady_clock env = steady_clock ticking
     \<and> tm_sec env = tm_sec ticking"

definition world0 :: world where
  "world0 = \<lparr>sys_reads = 0, steady_reads = 0, cout = [], cerr = [], slept = [],
             files = Map.empty\<rparr>"

text \<open>
  \<open>nanosecond_steps\<close> is \<open>ticking\<close> with a steady clock that advances by one nanosecond
  from each call to the next and a wall clock that stands still at second 1: a counting
  loop bounded by the steady clock then makes 999,999,999 passes.
\<close>

definition nanosecond_steps :: env where
  "nanosecond_steps =
     ticking\<lparr>system_clock := (\<lambda>k. 1000000000), steady_clock := (\<lambda>k. int k)\<rparr>"

text \<open>
  \<open>late_start\<close> is \<open>ticking\<close> with a wall clock that shows 0.8 seconds at its first call
  and 50 milliseconds more at every call after it.
\<close>

definition late_start :: env where
  "late_start = ticking\<lparr>system_clock := (\<lambda>k. 800000000 + int k * 50000000)\<rparr>"

text \<open>
  \<open>boundary\<close> is \<open>ticking\<close> with a wall clock that shows 5 seconds at its first call and
  three quarters of a second more at every call after it, so that two successive calls
  can fall into different seconds.
\<close>

definition boundary :: env where
  "boundary = ticking\<lparr>system_clock := (\<lambda>k. 5000000000 + int k * 750000000)\<rparr>"

text \<open>
  \<open>no_detail\<close> is \<open>ticking\<close> on a file system where the iteration log is the only file that
  opens, and \<open>no_log\<close> is \<open>ticking\<close> on one where the iteration log is the only file that
  does not.
\<close>

definition no_detail :: env where
  "no_detail = ticking\<lparr>is_open := (\<lambda>p. p = iterationLogPath ticking)\<rparr>"

definition no_log :: env where
  "no_log = ticking\<lparr>is_open := (\<lambda>p. p \<noteq> iterationLogPath ticking)\<rparr>"

text \<open>
  What a finished run reports as its total, next to the sum of the iteration counts of
  the cycles it ran.
\<close>

definition total_and_sum :: "'w::len outcome \<Rightarrow> nat option \<times> nat" where
  "total_and_sum out =
     (map_option (unat \<circ> totalIterations) (summary out),
      sum_list (map (unat \<circ> iterationCount) (cycle_results out)))"

section \<open>The elapsed-time breakdown\<close>

lemma sdiv_nonneg: "0 \<le> a \<Longrightarrow> 0 \<le> b \<Longrightarrow> a sdiv b = a div (b::int)"
  by (simp add: signed_divide_int_def sgn_if)

lemma smod_nonneg: "0 \<le> a \<Longrightarrow> 0 \<le> b \<Longrightarrow> a smod b = a mod (b::int)"
  by (simp add: signed_modulo_int_def sgn_if)

lemma elapsed_breakdown_nonneg:
  assumes "0 \<le> t"
  shows "elapsed_breakdown t =
    \<lparr>days = t div 86400000, hours = t mod 86400000 div 3600000,
     minutes = t mod 86400000 mod 3600000 div 60000,
     seconds = t mod 86400000 mod 3600000 mod 60000 div 1000,
     ms = t mod 86400000 mod 3600000 mod 60000 mod 1000\<rparr>"
proof -
  define r1 where "r1 = t mod 86400000"
  define r2 where "r2 = r1 mod 3600000"
  define r3 where "r3 = r2 mod 60000"
  have r: "0 \<le> r1" "0 \<le> r2" "0 \<le> r3" by (simp_all add: r1_def r2_def r3_def)
  have 1: "t sdiv 86400000 = t div 86400000" "t smod 86400000 = r1"
    using assms by (simp_all add: sdiv_nonneg smod_nonneg r1_def)
  have 2: "r1 sdiv 3600000 = r1 div 3600000" "r1 smod 3600000 = r2"
    using r by (simp_all add: sdiv_nonneg smod_nonneg r2_def)
  have 3: "r2 sdiv 60000 = r2 div 60000" "r2 smod 60000 = r3"
    using r by (simp_all add: sdiv_nonneg smod_nonneg r3_def)
  have 4: "r3 sdiv 1000 = r3 div 1000" "r3 smod 1000 = r3 mod 1000"
    using r by (simp_all add: sdiv_nonneg smod_nonneg)
  have "elapsed_breakdown t =
      \<lparr>days = t div 86400000, hours = r1 div 3600000, minutes = r2 div 60000,
       seconds = r3 div 1000, ms = r3 mod 1000\<rparr>"
    by (simp add: elapsed_breakdown_def Let_def 1 2 3 4)
  then show ?thesis by (simp only: r1_def r2_def r3_def)
qed

lemma final_summary_breakdown:
  "elapsedBreakdown (fst (final_summary env cycles cycleStartTime sumOfIterations w))
     = elapsed_breakdown (count_ms env (system_clock env (sys_reads w) - cycleStartTime))"
  by (simp add: final_summary_def system_now_def Let_def)

text \<open>
  Claim C8. The breakdown of the final summary is \<open>elapsed_breakdown\<close> of the milliseconds
  elapsed between the start of the cycles and the reading of the wall clock that the
  summary makes. For every elapsed time of zero or more milliseconds, that breakdown
  has its hours below 24, its minutes and seconds below 60, its milliseconds below 1000,
  none of them negative, and the five fields put together again give the elapsed
  milliseconds exactly.
\<close>

theorem elapsed_breakdown_exact:
  fixes cycles :: "'w::len word"
  shows
  "elapsedBreakdown (fst (final_summary env cycles cycleStartTime sumOfIterations w))
     = elapsed_breakdown (count_ms env (system_clock env (sys_reads w) - cycleStartTime))
   \<and> (0 \<le> totalMs \<longrightarrow>
        0 \<le> hours (elapsed_breakdown totalMs) \<and> hours (elapsed_breakdown totalMs) < 24
        \<and> 0 \<le> minutes (elapsed_breakdown totalMs) \<and> minutes (elapsed_breakdown totalMs) < 60
        \<and> 0 \<le> seconds (elapsed_breakdown totalMs) \<and> seconds (elapsed_breakdown totalMs) < 60
        \<and> 0 \<le> ms (elapsed_breakdown totalMs) \<and> ms (elapsed_breakdown totalMs) < 1000
        \<and> days (elapsed_breakdown totalMs) * 86400000 + hours (elapsed_breakdown totalMs) * 3600000
            + minutes (elapsed_breakdown totalMs) * 60000 + seconds (elapsed_breakdown totalMs) * 1000
            + ms (elapsed_breakdown totalMs) = totalMs)
   \<and> (0 \<le> count_ms env (system_clock env (sys_reads w) - cycleStartTime) \<longrightarrow>
        0 \<le> hours (elapsedBreakdown (fst (final_summary env cycles cycleStartTime sumOfIterations w))) \<and> hours (elapsedBreakdown (fst (final_summary env cycles cycleStartTime sumOfIterations w))) < 24
        \<and> 0 \<le> minutes (elapsedBreakdown (fst (final_summary env cycles cycleStartTime sumOfIterations w))) \<and> minutes (elapsedBreakdown (fst (final_summary env cycles cycleStartTime sumOfIterations w))) < 60
        \<and> 0 \<le> seconds (elapsedBreakdown (fst (final_summary env cycles cycleStartTime sumOfIterations w))) \<and> seconds (elapsedBreakdown (fst (final_summary env cycles cycleStartTime sumOfIterations w))) < 60
        \<and> 0 \<le> ms (elapsedBreakdown (fst (final_summary env cycles cycleStartTime sumOfIterations w))) \<and> ms (elapsedBreakdown (fst (final_summary env cycles cycleStartTime sumOfIterations w))) < 1000
        \<and> days (elapsedBreakdown (fst (final_summary env cycles cycleStartTime sumOfIterations w))) * 86400000 + hours (elapsedBreakdown (fst (final_summary env cycles cycleStartTime sumOfIterations w))) * 3600000
            + minutes (elapsedBreakdown (fst (final_summary env cycles cycleStartTime sumOfIterations w))) * 60000 + seconds (elapsedBreakdown (fst (final_summary env cycles cycleStartTime sumOfIterations w))) * 1000
            + ms (elapsedBreakdown (fst (final_summary env cycles cycleStartTime sumOfIterations w))) = count_ms env (system_clock env (sys_reads w) - cycleStartTime))"
proof -
  have gen: "0 \<le> hours (elapsed_breakdown t) \<and> hours (elapsed_breakdown t) < 24
        \<and> 0 \<le> minutes (elapsed_breakdown t) \<and> minutes (elapsed_breakdown t) < 60
        \<and> 0 \<le> seconds (elapsed_breakdown t) \<and> seconds (elapsed_breakdown t) < 60
        \<and> 0 \<le> ms (elapsed_breakdown t) \<and> ms (elapsed_breakdown t) < 1000
        \<and> days (elapsed_breakdown t) * 86400000 + hours (elapsed_breakdown t) * 3600000
            + minutes (elapsed_breakdown t) * 60000 + seconds (elapsed_breakdown t) * 1000
            + ms (elapsed_breakdown t) = t" if t: "0 \<le> t" for t
  proof -
    define r1 where "r1 = t mod 86400000"
    define r2 where "r2 = r1 mod 3600000"
    define r3 where "r3 = r2 mod 60000"
    have eb: "elapsed_breakdown t =
        \<lparr>days = t div 86400000, hours = r1 div 3600000, minutes = r2 div 60000,
         seconds = r3 div 1000, ms = r3 mod 1000\<rparr>"
      using t by (simp only: elapsed_breakdown_nonneg r1_def r2_def r3_def)
    have r1: "0 \<le> r1" "r1 < 86400000" by (simp_all add: r1_def)
    have r2: "0 \<le> r2" "r2 < 3600000" by (simp_all add: r2_def)
    have r3: "0 \<le> r3" "r3 < 60000" by (simp_all add: r3_def)
    have h: "0 \<le> r1 div 3600000" "r1 div 3600000 < 24" using r1 by simp_all
    have m: "0 \<le> r2 div 60000" "r2 div 60000 < 60" using r2 by simp_all
    have s: "0 \<le> r3 div 1000" "r3 div 1000 < 60" using r3 by simp_all
    have l: "0 \<le> r3 mod 1000" "r3 mod 1000 < 1000" by simp_all
    have e1: "t = (t div 86400000) * 86400000 + r1" by (simp add: r1_def)
    have e2: "r1 = (r1 div 3600000) * 3600000 + r2" by (simp add: r2_def)
    have e3: "r2 = (r2 div 60000) * 60000 + r3" by (simp add: r3_def)
    have e4: "r3 = (r3 div 1000) * 1000 + r3 mod 1000" by simp
    have sum: "(t div 86400000) * 86400000 + (r1 div 3600000) * 3600000
        + (r2 div 60000) * 60000 + (r3 div 1000) * 1000 + r3 mod 1000 = t"
      using e1 e2 e3 e4 by linarith
    show ?thesis
      unfolding eb breakdown.select_convs using h m s l sum by (intro conjI)
  qed
  show ?thesis
    unfolding final_summary_breakdown
    by (rule conjI [OF refl], rule conjI; rule impI, rule gen)
qed

theorem elapsed_breakdown_exact_witness:
  "(0 :: int) \<le> count_ms ticking (system_clock ticking (sys_reads (world0\<lparr>sys_reads := 90062\<rparr>)) - 999000000)
   \<and> count_ms ticking (system_clock ticking (sys_reads (world0\<lparr>sys_reads := 90062\<rparr>)) - 999000000)
       = 90061001
   \<and> elapsedBreakdown (fst (final_summary ticking (2 :: 32 word) 999000000 7
         (world0\<lparr>sys_reads := 90062\<rparr>)))
       = \<lparr>days = 1, hours = 1, minutes = 1, seconds = 1, ms = 1\<rparr>
   \<and> hours (elapsedBreakdown (fst (final_summary ticking (2 :: 32 word) 999000000 7
         (world0\<lparr>sys_reads := 90062\<rparr>)))) < 24
   \<and> (1 :: int) * 86400000 + 1 * 3600000 + 1 * 60000 + 1 * 1000 + 1 = 90061001
   \<and> (0 :: int) \<le> 86399999 \<and> hours (elapsed_breakdown 86399999) < 24
   \<and> ms (elapsed_breakdown 86399999) < 1000"
proof -
  have t: "count_ms ticking (system_clock ticking (sys_reads (world0\<lparr>sys_reads := 90062\<rparr>)) - 999000000)
      = 90061001"
    by (simp add: ticking_def world0_def)
  have v: "elapsed_breakdown 90061001 =
      \<lparr>days = 1, hours = 1, minutes = 1, seconds = 1, ms = 1\<rparr>"
    by (simp add: elapsed_breakdown_nonneg)
  note e = elapsed_breakdown_exact [where env = ticking and w = "world0\<lparr>sys_reads := 90062\<rparr>"
      and cycleStartTime = 999000000 and totalMs = 86399999 and cycles = "2 :: 32 word"
      and sumOfIterations = 7]
  have b: "elapsedBreakdown (fst (final_summary ticking (2 :: 32 word) 999000000 7
         (world0\<lparr>sys_reads := 90062\<rparr>)))
       = \<lparr>days = 1, hours = 1, minutes = 1, seconds = 1, ms = 1\<rparr>"
    using e [THEN conjunct1] unfolding t v .
  have h: "hours (elapsedBreakdown (fst (final_summary ticking (2 :: 32 word) 999000000 7
         (world0\<lparr>sys_reads := 90062\<rparr>)))) < 24"
    using e [THEN conjunct2, THEN conjunct2] unfolding t by simp
  have g: "hours (elapsed_breakdown 86399999) < 24" "ms (elapsed_breakdown 86399999) < 1000"
    using e [THEN conjunct2, THEN conjunct1] by simp_all
  show ?thesis unfolding t using b h g by (intro conjI) simp_all
qed

section \<open>The average\<close>

text \<open>
  Claim C9. The reported average is the total number of iterations divided by the
  number of cycles, by integer division that truncates; two cycles of 5,000,001 and
  4,999,999 iterations have the average 5,000,000.
\<close>

theorem average_is_truncating_division:
  "unat (avgOpsPerSec sumOfIterations cycles) = unat sumOfIterations div unat cycles
   \<and> averageIterationsPerCycle (fst (final_summary env cycles t0 sumOfIterations w))
       = avgOpsPerSec sumOfIterations cycles
   \<and> avgOpsPerSec (5000001 + 4999999) (2 :: 32 word) = 5000000
   \<and> avgOpsPerSec (5000001 + 4999999) (2 :: 64 word) = 5000000"
proof (intro conjI)
  show "unat (avgOpsPerSec sumOfIterations cycles) = unat sumOfIterations div unat cycles"
    by (simp add: avgOpsPerSec_def unat_div word_greater_zero_iff unat_eq_zero)
  show "averageIterationsPerCycle (fst (final_summary env cycles t0 sumOfIterations w))
       = avgOpsPerSec sumOfIterations cycles"
    by (simp add: final_summary_def Let_def split: prod.splits)
  show "avgOpsPerSec (5000001 + 4999999) (2 :: 32 word) = 5000000"
    by (simp add: avgOpsPerSec_def)
  show "avgOpsPerSec (5000001 + 4999999) (2 :: 64 word) = 5000000"
    by (simp add: avgOpsPerSec_def)
qed

section \<open>What the loops leave alone\<close>

lemmas io_defs = system_now_def steady_now_def cout_put_def cerr_put_def sleep_for_def
  getCurrentSecond_def getFileTimestamp_def ofstream_write_def ofstream_app_def

lemma pause_program_cerr:
  "pause_program env pauseMs buffer w = Some y \<Longrightarrow> cerr (snd y) = cerr w"
proof (induction env pauseMs buffer w y rule: pause_program.raw_induct[rotated 1, consumes 1])
  case (1 f env pauseMs buffer w y)
  then show ?case
    by (auto simp: io_defs Let_def split: if_splits prod.splits dest!: "1.IH")
qed

lemma pause_optimized_cerr:
  "pause_optimized env sec buffer w = Some y \<Longrightarrow> cerr (snd y) = cerr w"
proof (induction env sec buffer w y rule: pause_optimized.raw_induct[rotated 1, consumes 1])
  case (1 f env sec buffer w y)
  then show ?case
    by (auto simp: io_defs Let_def split: if_splits prod.splits dest!: "1.IH")
qed

lemma count_program_cerr:
  "count_program env c cs ss cur its i buffer w = Some y \<Longrightarrow> cerr (snd (snd y)) = cerr w"
proof (induction env c cs ss cur its i buffer w y rule: count_program.raw_induct[rotated 1, consumes 1])
  case (1 f env c cs ss cur its i buffer w y)
  then show ?case
    by (auto simp: io_defs Let_def split: if_splits prod.splits dest!: "1.IH")
qed

lemma count_optimized_cerr:
  "count_optimized env c cs e its i buffer w = Some y \<Longrightarrow> cerr (snd (snd y)) = cerr w"
proof (induction env c cs e its i buffer w y rule: count_optimized.raw_induct[rotated 1, consumes 1])
  case (1 f env c cs e its i buffer w y)
  then show ?case
    by (auto simp: io_defs Let_def split: if_splits prod.splits dest!: "1.IH")
qed

section \<open>The loop over the cycles\<close>

lemma unat_sum_list:
  "unat (sum_list (ws :: 'w::len word list)) = sum_list (map unat ws) mod 2 ^ LENGTH('w)"
proof (induction ws)
  case Nil
  show ?case by simp
next
  case (Cons a ws)
  have "unat (a + sum_list ws) = (unat a + unat (sum_list ws)) mod 2 ^ LENGTH('w)"
    by (simp add: unat_word_ariths)
  also have "\<dots> = (unat a + sum_list (map unat ws) mod 2 ^ LENGTH('w)) mod 2 ^ LENGTH('w)"
    by (simp only: Cons.IH)
  also have "\<dots> = (unat a + sum_list (map unat ws)) mod 2 ^ LENGTH('w)"
    by (rule mod_add_right_eq)
  finally show ?case by simp
qed

lemma run_cycle_result:
  assumes "run_cycle m env cycles c s w = Some (r, s', w')"
  shows "cycleIndex r = c" and "s' = s + iterationCount r"
  using assms
  by (auto simp: run_cycle_def Let_def split: prod.splits option.splits)

lemma run_cycle_returns:
  assumes "\<And>c w. m env c cycles w \<noteq> None"
  shows "run_cycle m env cycles c s w \<noteq> None"
  by (simp add: run_cycle_def Let_def split_beta assms split: option.splits)

lemma unat_Suc_below:
  fixes c cycles :: "'w::len word"
  assumes "c \<le> cycles" "cycles \<noteq> - 1"
  shows "unat (c + 1) = Suc (unat c)"
  by (metis add.commute add_eq_0_iff2 assms(1,2) unatSuc word_order.extremum_unique)

lemma cycle_loop_completes:
  fixes cycles :: "'w::len word"
  assumes tot: "\<forall>c w. m env c cycles w \<noteq> None" and nomax: "cycles \<noteq> - 1"
  shows "unat cycle \<le> Suc (unat cycles) \<Longrightarrow>
    \<exists>rs' w'. cycle_loop m env cycles cycle s rs w
                 = Some (rs @ rs', s + sum_list (map iterationCount rs'), w')
             \<and> map (unat \<circ> cycleIndex) rs' = [unat cycle..<Suc (unat cycles)]"
proof (induction "Suc (unat cycles) - unat cycle" arbitrary: cycle s rs w)
  case 0
  then have "\<not> cycle \<le> cycles" by (simp add: word_le_nat_alt)
  with 0 show ?case by (subst cycle_loop.simps) simp
next
  case (Suc n)
  then have le: "cycle \<le> cycles" by (simp add: word_le_nat_alt)
  obtain r s1 w1 where rc: "run_cycle m env cycles cycle s w = Some (r, s1, w1)"
    using run_cycle_returns [of m env cycles cycle s w] tot
    by (cases "run_cycle m env cycles cycle s w") auto
  have r: "cycleIndex r = cycle" "s1 = s + iterationCount r"
    using run_cycle_result [OF rc] by simp_all
  have u: "unat (cycle + 1) = Suc (unat cycle)" using le nomax by (rule unat_Suc_below)
  have n: "n = Suc (unat cycles) - unat (cycle + 1)" using Suc.hyps(2) u by simp
  have b: "unat (cycle + 1) \<le> Suc (unat cycles)" using le u by (simp add: word_le_nat_alt)
  from Suc.hyps(1) [OF n b, of s1 "rs @ [r]" w1]
  obtain rs' w' where
    ih: "cycle_loop m env cycles (cycle + 1) s1 (rs @ [r]) w1
           = Some ((rs @ [r]) @ rs', s1 + sum_list (map iterationCount rs'), w')"
    and ix: "map (unat \<circ> cycleIndex) rs' = [unat (cycle + 1)..<Suc (unat cycles)]"
    by blast
  have "cycle_loop m env cycles cycle s rs w
          = Some (rs @ (r # rs'), s + sum_list (map iterationCount (r # rs')), w')"
    using le rc ih r by (subst cycle_loop.simps) (simp add: add.assoc)
  moreover have "map (unat \<circ> cycleIndex) (r # rs') = [unat cycle..<Suc (unat cycles)]"
    using ix u r le by (simp add: upt_conv_Cons word_le_nat_alt)
  ultimately show ?case by blast
qed

lemma cycle_loop_Some_not_max:
  "cycle_loop m env cycles cycle s rs w = Some y \<Longrightarrow> cycles \<noteq> - 1"
proof (induction m env cycles cycle s rs w y rule: cycle_loop.raw_induct[rotated 1, consumes 1])
  case (1 f m env cycles cycle s rs w y)
  then show ?case
    by (auto split: if_splits option.splits prod.splits)
qed

lemma cycle_loop_Some:
  fixes cycles :: "'w::len word"
  assumes "cycle_loop m env cycles cycle s rs w = Some (rs', s', w')"
    and "unat cycle \<le> Suc (unat cycles)"
  shows "\<exists>rs''. rs' = rs @ rs'' \<and> s' = s + sum_list (map iterationCount rs'')
             \<and> map (unat \<circ> cycleIndex) rs'' = [unat cycle..<Suc (unat cycles)]"
proof -
  have nomax: "cycles \<noteq> - 1" using assms(1) by (rule cycle_loop_Some_not_max)
  have "cycle_loop m env cycles cycle s rs w = Some y \<Longrightarrow> unat cycle \<le> Suc (unat cycles) \<Longrightarrow>
      cycles \<noteq> - 1 \<Longrightarrow>
      (\<exists>rs''. fst y = rs @ rs'' \<and> fst (snd y) = s + sum_list (map iterationCount rs'')
             \<and> map (unat \<circ> cycleIndex) rs'' = [unat cycle..<Suc (unat cycles)])" for y
  proof (induction m env cycles cycle s rs w y rule: cycle_loop.raw_induct[rotated 1, consumes 1])
    case (1 f m env cycles cycle s rs w y)
    show ?case
    proof (cases "cycle \<le> cycles")
      case False
      with "1.prems" have "unat cycle = Suc (unat cycles)" by (simp add: word_le_nat_alt)
      with False "1.hyps" show ?thesis by auto
    next
      case True
      with "1.hyps" obtain r s1 w1 where rc: "run_cycle m env cycles cycle s w = Some (r, s1, w1)"
        and rec: "f m env cycles (cycle + 1) s1 (rs @ [r]) w1 = Some y"
        by (auto split: option.splits)
      have r: "cycleIndex r = cycle" "s1 = s + iterationCount r"
        using run_cycle_result [OF rc] by simp_all
      have u: "unat (cycle + 1) = Suc (unat cycle)" using True "1.prems"(2) by (rule unat_Suc_below)
      have b: "unat (cycle + 1) \<le> Suc (unat cycles)" using True u by (simp add: word_le_nat_alt)
      from "1.IH" [OF rec b "1.prems"(2)] obtain rs'' where
        a: "fst y = (rs @ [r]) @ rs''" "fst (snd y) = s1 + sum_list (map iterationCount rs'')"
        "map (unat \<circ> cycleIndex) rs'' = [unat (cycle + 1)..<Suc (unat cycles)]" by blast
      have "fst y = rs @ (r # rs'')" using a by simp
      moreover have "fst (snd y) = s + sum_list (map iterationCount (r # rs''))"
        using a r by (simp add: add.assoc)
      moreover have "map (unat \<circ> cycleIndex) (r # rs'') = [unat cycle..<Suc (unat cycles)]"
        using a u r True by (simp add: upt_conv_Cons word_le_nat_alt)
      ultimately show ?thesis by blast
    qed
  qed
  from this [OF assms nomax] show ?thesis by simp
qed

text \<open>Nothing in a cycle reads or writes the error stream.\<close>

lemma cerr_update_last:
  "(w\<lparr>cerr := e\<rparr>)\<lparr>sys_reads := a\<rparr> = (w\<lparr>sys_reads := a\<rparr>)\<lparr>cerr := e\<rparr>"
  "(w\<lparr>cerr := e\<rparr>)\<lparr>steady_reads := a\<rparr> = (w\<lparr>steady_reads := a\<rparr>)\<lparr>cerr := e\<rparr>"
  "(w\<lparr>cerr := e\<rparr>)\<lparr>cout := c\<rparr> = (w\<lparr>cout := c\<rparr>)\<lparr>cerr := e\<rparr>"
  "(w\<lparr>cerr := e\<rparr>)\<lparr>slept := s\<rparr> = (w\<lparr>slept := s\<rparr>)\<lparr>cerr := e\<rparr>"
  "(w\<lparr>cerr := e\<rparr>)\<lparr>files := f\<rparr> = (w\<lparr>files := f\<rparr>)\<lparr>cerr := e\<rparr>"
  by simp_all

lemma pause_program_cerr_frame:
  "pause_program env pauseMs buffer w = Some y \<Longrightarrow>
   pause_program env pauseMs buffer (w\<lparr>cerr := e\<rparr>) = Some (fst y, (snd y)\<lparr>cerr := e\<rparr>)"
proof (induction env pauseMs buffer w y rule: pause_program.raw_induct[rotated 1, consumes 1])
  case (1 f env pauseMs buffer w y)
  show ?case
    apply (subst pause_program.simps)
    using "1.hyps" 
    by (auto simp: io_defs Let_def cerr_update_last split: if_splits prod.splits dest!: "1.IH")
qed

lemma pause_optimized_cerr_frame:
  "pause_optimized env sec buffer w = Some y \<Longrightarrow>
   pause_optimized env sec buffer (w\<lparr>cerr := e\<rparr>) = Some (fst y, (snd y)\<lparr>cerr := e\<rparr>)"
proof (induction env sec buffer w y rule: pause_optimized.raw_induct[rotated 1, consumes 1])
  case (1 f env sec buffer w y)
  show ?case
    apply (subst pause_optimized.simps)
    using "1.hyps" 
    by (auto simp: io_defs Let_def cerr_update_last split: if_splits prod.splits dest!: "1.IH")
qed

lemma count_program_cerr_frame:
  "count_program env c cs ss cur its i buffer w = Some y \<Longrightarrow>
   count_program env c cs ss cur its i buffer (w\<lparr>cerr := e\<rparr>)
     = Some (fst y, fst (snd y), (snd (snd y))\<lparr>cerr := e\<rparr>)"
proof (induction env c cs ss cur its i buffer w y rule: count_program.raw_induct[rotated 1, consumes 1])
  case (1 f env c cs ss cur its i buffer w y)
  show ?case
    apply (subst count_program.simps)
    using "1.hyps" 
    by (auto simp: io_defs Let_def cerr_update_last split: if_splits prod.splits dest!: "1.IH")
qed

lemma count_optimized_cerr_frame:
  "count_optimized env c cs e0 its i buffer w = Some y \<Longrightarrow>
   count_optimized env c cs e0 its i buffer (w\<lparr>cerr := e\<rparr>)
     = Some (fst y, fst (snd y), (snd (snd y))\<lparr>cerr := e\<rparr>)"
proof (induction env c cs e0 its i buffer w y rule: count_optimized.raw_induct[rotated 1, consumes 1])
  case (1 f env c cs e0 its i buffer w y)
  show ?case
    apply (subst count_optimized.simps)
    using "1.hyps" 
    by (auto simp: io_defs Let_def cerr_update_last split: if_splits prod.splits dest!: "1.IH")
qed

lemma cerr_frame_lift:
  assumes "\<And>w e y. f w = Some y \<Longrightarrow> f (w\<lparr>cerr := e\<rparr>) = Some (g e y)"
  shows "f (w\<lparr>cerr := e\<rparr>) = map_option (g e) (f w)"
proof (cases "f w")
  case (Some y)
  then show ?thesis by (simp add: assms)
next
  case None
  have "f (w\<lparr>cerr := e\<rparr>) = None"
  proof (rule ccontr)
    assume "f (w\<lparr>cerr := e\<rparr>) \<noteq> None"
    then obtain y where "f (w\<lparr>cerr := e\<rparr>) = Some y" by auto
    from assms [OF this, of "cerr w"] None show False by simp
  qed
  with None show ?thesis by simp
qed

lemma pause_program_cerr_eq:
  "pause_program env p b (w\<lparr>cerr := e\<rparr>)
     = map_option (\<lambda>y. (fst y, (snd y)\<lparr>cerr := e\<rparr>)) (pause_program env p b w)"
  by (rule cerr_frame_lift [where f = "pause_program env p b"], rule pause_program_cerr_frame)

lemma pause_optimized_cerr_eq:
  "pause_optimized env p b (w\<lparr>cerr := e\<rparr>)
     = map_option (\<lambda>y. (fst y, (snd y)\<lparr>cerr := e\<rparr>)) (pause_optimized env p b w)"
  by (rule cerr_frame_lift [where f = "pause_optimized env p b"], rule pause_optimized_cerr_frame)

lemma count_program_cerr_eq:
  "count_program env c cs ss cur its i b (w\<lparr>cerr := e\<rparr>)
     = map_option (\<lambda>y. (fst y, fst (snd y), (snd (snd y))\<lparr>cerr := e\<rparr>))
         (count_program env c cs ss cur its i b w)"
  by (rule cerr_frame_lift [where f = "count_program env c cs ss cur its i b"],
      rule count_program_cerr_frame)

lemma count_optimized_cerr_eq:
  "count_optimized env c cs e0 its i b (w\<lparr>cerr := e\<rparr>)
     = map_option (\<lambda>y. (fst y, fst (snd y), (snd (snd y))\<lparr>cerr := e\<rparr>))
         (count_optimized env c cs e0 its i b w)"
  by (rule cerr_frame_lift [where f = "count_optimized env c cs e0 its i b"],
      rule count_optimized_cerr_frame)

lemma measure_program_cerr_eq:
  "measure_program env c cs (w\<lparr>cerr := e\<rparr>)
     = map_option (\<lambda>(n, s, b, w'). (n, s, b, w'\<lparr>cerr := e\<rparr>)) (measure_program env c cs w)"
  by (simp add: measure_program_def timed_program_def Let_def split_beta io_defs
      cerr_update_last pause_program_cerr_eq count_program_cerr_eq split: option.splits)

lemma measure_optimized_cerr_eq:
  "measure_optimized env c cs (w\<lparr>cerr := e\<rparr>)
     = map_option (\<lambda>(n, s, b, w'). (n, s, b, w'\<lparr>cerr := e\<rparr>)) (measure_optimized env c cs w)"
  by (simp add: measure_optimized_def timed_optimized_def Let_def split_beta io_defs
      cerr_update_last pause_optimized_cerr_eq count_optimized_cerr_eq split: option.splits)

lemma run_cycle_cerr_eq:
  assumes "m = measure_program \<or> m = measure_optimized"
  shows "run_cycle m env cycles c s (w\<lparr>cerr := e\<rparr>)
     = map_option (\<lambda>(r, s', w'). (r, s', w'\<lparr>cerr := e\<rparr>)) (run_cycle m env cycles c s w)"
  using assms
  by (auto simp add: run_cycle_def Let_def split_beta io_defs
      cerr_update_last measure_program_cerr_eq measure_optimized_cerr_eq split: option.splits)

lemma measure_program_cerr:
  "measure_program env c cs w = Some (n, s, b, w') \<Longrightarrow> cerr w' = cerr w"
  by (auto simp: measure_program_def timed_program_def Let_def split_beta io_defs
      split: option.splits dest!: pause_program_cerr count_program_cerr)

lemma measure_optimized_cerr:
  "measure_optimized env c cs w = Some (n, s, b, w') \<Longrightarrow> cerr w' = cerr w"
  by (auto simp: measure_optimized_def timed_optimized_def Let_def split_beta io_defs
      split: option.splits dest!: pause_optimized_cerr count_optimized_cerr)

lemma run_cycle_cerr:
  assumes "m = measure_program \<or> m = measure_optimized"
    and "run_cycle m env cycles c s w = Some (r, s', w')"
  shows "cerr w' = cerr w"
  using assms
  by (auto simp: run_cycle_def Let_def split_beta io_defs
      split: option.splits dest!: measure_program_cerr measure_optimized_cerr)

lemma cycle_loop_cerr:
  "cycle_loop m env cycles c s rs w = Some y \<Longrightarrow> m = measure_program \<or> m = measure_optimized
     \<Longrightarrow> cerr (snd (snd y)) = cerr w"
proof (induction m env cycles c s rs w y rule: cycle_loop.raw_induct[rotated 1, consumes 1])
  case (1 f m env cycles c s rs w y)
  show ?case
  proof (cases "c \<le> cycles")
    case False
    with "1.hyps" show ?thesis by auto
  next
    case True
    with "1.hyps" obtain r s1 w1 where rc: "run_cycle m env cycles c s w = Some (r, s1, w1)"
      and rec: "f m env cycles (c + 1) s1 (rs @ [r]) w1 = Some y"
      by (auto split: option.splits)
    from "1.IH" [OF rec "1.prems"] run_cycle_cerr [OF "1.prems" rc] show ?thesis by simp
  qed
qed

lemma cycle_loop_cerr_frame:
  "cycle_loop m env cycles c s rs w = Some y \<Longrightarrow> m = measure_program \<or> m = measure_optimized
     \<Longrightarrow> cycle_loop m env cycles c s rs (w\<lparr>cerr := e\<rparr>)
       = Some (fst y, fst (snd y), (snd (snd y))\<lparr>cerr := e\<rparr>)"
proof (induction m env cycles c s rs w y rule: cycle_loop.raw_induct[rotated 1, consumes 1])
  case (1 f m env cycles c s rs w y)
  show ?case
  proof (cases "c \<le> cycles")
    case False
    with "1.hyps" show ?thesis by (subst cycle_loop.simps) auto
  next
    case True
    with "1.hyps" obtain r s1 w1 where rc: "run_cycle m env cycles c s w = Some (r, s1, w1)"
      and rec: "f m env cycles (c + 1) s1 (rs @ [r]) w1 = Some y"
      by (auto split: option.splits)
    from "1.IH" [OF rec "1.prems"] rc True show ?thesis
      by (subst cycle_loop.simps) (simp add: run_cycle_cerr_eq [OF "1.prems"])
  qed
qed

lemma cycle_loop_cerr_eq:
  assumes "m = measure_program \<or> m = measure_optimized"
  shows "cycle_loop m env cycles c s rs (w\<lparr>cerr := e\<rparr>)
     = map_option (\<lambda>y. (fst y, fst (snd y), (snd (snd y))\<lparr>cerr := e\<rparr>))
         (cycle_loop m env cycles c s rs w)"
  by (rule cerr_frame_lift [where f = "cycle_loop m env cycles c s rs"],
      rule cycle_loop_cerr_frame [OF _ assms])

lemma final_summary_cerr_eq:
  "final_summary env cycles t0 s (w\<lparr>cerr := e\<rparr>)
     = (fst (final_summary env cycles t0 s w), (snd (final_summary env cycles t0 s w))\<lparr>cerr := e\<rparr>)"
  by (simp add: final_summary_def Let_def split_beta io_defs cerr_update_last)

lemma final_summary_cerr:
  "cerr (snd (final_summary env cycles t0 s w)) = cerr w"
  by (simp add: final_summary_def Let_def split_beta io_defs)

section \<open>The whole run\<close>

lemma read_cycles_fst: "fst (read_cycles input w) = fst (read_cycles input w0)"
  by (simp add: read_cycles_def split: option.splits)

lemma word_ge_1: "x \<noteq> 0 \<Longrightarrow> 1 \<le> (x :: 'w::len word)"
  by (simp add: word_le_sub1)

lemma read_cycles_positive: "1 \<le> fst (read_cycles input w :: 'w::len word \<times> world)"
  by (auto simp: read_cycles_def not_less word_ge_1 split: option.splits)

lemma startup_cycles: "fst (startup env input w) = fst (read_cycles input w)"
  by (simp add: startup_def Let_def split_beta read_cycles_fst [of input "cout_put banner w" w])

lemma startup_cerr:
  "cerr (snd (snd (startup env input w :: 'w::len word \<times> time_point \<times> world)))
     = cerr (snd (read_cycles input w :: 'w word \<times> world))"
  by (simp add: startup_def Let_def split_beta io_defs read_cycles_def split: option.splits)

lemma main_run:
  assumes "path_exists env (logDetailDir env)" "path_exists env (iterationDir env)"
    and "startup env input w = (cycles, t0, w1)"
  shows "main m env input w =
     (case cycle_loop m env cycles 1 0 [] w1 of
        None \<Rightarrow> None
      | Some (rs, s, w2) \<Rightarrow>
          Some (\<lparr>exit_code = 0, cycle_results = rs,
                  summary = Some (fst (final_summary env cycles t0 s w2))\<rparr>,
                snd (final_summary env cycles t0 s w2)))"
  using assms by (simp add: main_def Let_def split_beta split: option.splits)

lemma final_summary_total:
  "totalIterations (fst (final_summary env cycles t0 s w)) = s"
  "cycleCount (fst (final_summary env cycles t0 s w)) = cycles"
  by (simp_all add: final_summary_def Let_def split_beta)

lemma sum_list_unat_comp:
  "sum_list (map unat (map iterationCount rs)) = sum_list (map (unat \<circ> iterationCount) rs)"
  by simp

lemma main_completes:
  fixes cycles :: "'w::len word"
  assumes dirs: "path_exists env (logDetailDir env)" "path_exists env (iterationDir env)"
    and acc: "fst (read_cycles input w) = cycles"
    and nomax: "cycles \<noteq> - 1"
    and tot: "\<forall>c w. m env c cycles w \<noteq> None"
  shows "\<exists>out w' sm. main m env input w = Some (out, w') \<and> exit_code out = 0
     \<and> map (unat \<circ> cycleIndex) (cycle_results out) = [1..<Suc (unat cycles)]
     \<and> summary out = Some sm \<and> cycleCount sm = cycles
     \<and> unat (totalIterations sm)
         = sum_list (map (unat \<circ> iterationCount) (cycle_results out)) mod 2 ^ LENGTH('w)"
proof -
  obtain c0 t0 w1 where st: "startup env input w = (c0 :: 'w word, t0, w1)"
    by (cases "startup env input w :: 'w word \<times> time_point \<times> world") auto
  have c0: "c0 = cycles" using startup_cycles [of env input w, where 'a = 'w] st acc by simp
  have "unat (1 :: 'w word) \<le> Suc (unat cycles)" by simp
  from cycle_loop_completes [where m = m and env = env and cycles = cycles and cycle = 1
      and s = 0 and rs = "[]" and w = w1] tot nomax this
  obtain rs w2 where
    cl: "cycle_loop m env cycles 1 0 [] w1 = Some (rs, sum_list (map iterationCount rs), w2)"
    and ix: "map (unat \<circ> cycleIndex) rs = [1..<Suc (unat cycles)]"
    by auto
  let ?s = "sum_list (map iterationCount rs)"
  let ?out = "\<lparr>exit_code = 0, cycle_results = rs,
                  summary = Some (fst (final_summary env cycles t0 ?s w2))\<rparr>"
  have "main m env input w = Some (?out, snd (final_summary env cycles t0 ?s w2))"
    using main_run [OF dirs st [unfolded c0], of m] cl by simp
  moreover have "unat (totalIterations (fst (final_summary env cycles t0 ?s w2)))
      = sum_list (map (unat \<circ> iterationCount) rs) mod 2 ^ LENGTH('w)"
    by (simp add: final_summary_total unat_sum_list sum_list_unat_comp del: map_map)
  ultimately show ?thesis using ix by (simp add: final_summary_total)
qed

lemma main_Some:
  fixes out :: "'w::len outcome"
  assumes dirs: "path_exists env (logDetailDir env)" "path_exists env (iterationDir env)"
    and run: "main m env input w = Some (out, w')"
  shows "\<exists>sm. exit_code out = 0
     \<and> map (unat \<circ> cycleIndex) (cycle_results out)
         = [1..<Suc (unat (fst (read_cycles input w) :: 'w word))]
     \<and> summary out = Some sm \<and> cycleCount sm = fst (read_cycles input w)
     \<and> unat (totalIterations sm)
         = sum_list (map (unat \<circ> iterationCount) (cycle_results out)) mod 2 ^ LENGTH('w)"
proof -
  obtain cycles t0 w1 where st: "startup env input w = (cycles :: 'w word, t0, w1)"
    by (cases "startup env input w :: 'w word \<times> time_point \<times> world") auto
  have c0: "fst (read_cycles input w) = cycles"
    using startup_cycles [of env input w, where 'a = 'w] st by simp
  from run main_run [OF dirs st, of m]
  obtain rs s w2 where cl: "cycle_loop m env cycles 1 0 [] w1 = Some (rs, s, w2)"
    and out: "out = \<lparr>exit_code = 0, cycle_results = rs,
                  summary = Some (fst (final_summary env cycles t0 s w2))\<rparr>"
    by (auto split: option.splits)
  have "unat (1 :: 'w word) \<le> Suc (unat cycles)" by simp
  from cycle_loop_Some [OF cl this]
  have s: "s = sum_list (map iterationCount rs)"
    and ix: "map (unat \<circ> cycleIndex) rs = [1..<Suc (unat cycles)]" by auto
  have "unat (totalIterations (fst (final_summary env cycles t0 s w2)))
      = sum_list (map (unat \<circ> iterationCount) rs) mod 2 ^ LENGTH('w)"
    by (simp add: final_summary_total s unat_sum_list sum_list_unat_comp del: map_map)
  then show ?thesis using ix out c0 by (simp add: final_summary_total)
qed

section \<open>Runs in a ticking environment\<close>

lemma sec_word_mod8:
  "a < 60 \<Longrightarrow> ((of_nat a :: 32 word) mod 8 = 0) = (a mod 8 = 0)"
proof -
  assume a: "a < 60"
  have "unat ((of_nat a :: 32 word) mod 8) = a mod 8"
    using a by (simp add: unat_mod unat_of_nat)
  then show ?thesis by (simp add: word_unat_eq_iff)
qed

lemma sec_word_eq:
  "a < 60 \<Longrightarrow> b < 60 \<Longrightarrow> ((of_nat a :: 32 word) = of_nat b) = (a = b)"
  by (simp add: word_unat_eq_iff unat_of_nat)

lemma next_second_differs: "(Suc k) mod 60 \<noteq> k mod 60"
  by (simp add: mod_Suc)

lemma after_multiple_of_8:
  fixes k :: nat
  assumes "(k mod 60) mod 8 = 0" and "d = 1 \<or> d = 2"
  shows "((k + d) mod 60) mod 8 \<noteq> 0"
proof -
  define r where "r = k mod 60"
  have r: "r < 60" "r mod 8 = 0" using assms(1) by (simp_all add: r_def)
  then have "r \<le> 56" by arith
  then have "(r + d) mod 60 = r + d" using assms(2) by auto
  moreover have "(k + d) mod 60 = (r + d) mod 60" by (simp add: r_def mod_add_left_eq)
  moreover have "(r + d) mod 8 \<noteq> 0" using r(2) assms(2) by arith
  ultimately show ?thesis by simp
qed

lemma ticks_ticking [simp]: "ticks ticking"
  by (simp add: ticks_def)

lemma ticks_update [simp]:
  "ticks (env\<lparr>is_open := f\<rparr>) = ticks env"
  "ticks (env\<lparr>path_exists := g\<rparr>) = ticks env"
  by (simp_all add: ticks_def)

lemma ticks_second [simp]:
  "ticks env \<Longrightarrow> getCurrentSecond env w
     = (of_nat (sys_reads w mod 60), w\<lparr>sys_reads := Suc (sys_reads w)\<rparr>)"
  by (simp add: getCurrentSecond_def system_now_def ticks_def ticking_def)

lemma ticks_now [simp]:
  "ticks env \<Longrightarrow> system_now env w
     = (int (sys_reads w) * 1000000000, w\<lparr>sys_reads := Suc (sys_reads w)\<rparr>)"
  "ticks env \<Longrightarrow> steady_now env w
     = (int (steady_reads w) * 500000000, w\<lparr>steady_reads := Suc (steady_reads w)\<rparr>)"
  by (simp_all add: system_now_def steady_now_def ticks_def ticking_def)

lemma ticks_tm_sec [simp]: "ticks env \<Longrightarrow> tm_sec env (int k * 1000000000) = k mod 60"
  by (simp add: ticks_def ticking_def)

lemma ticking_pause_program:
  assumes t: "ticks env"
  shows "pause_program env (p :: 32 word) b w \<noteq> None"
proof (cases "(sys_reads w mod 60) mod 8 = 0")
  case False
  then show ?thesis by (subst pause_program.simps) (simp add: t sec_word_mod8)
next
  case True
  then have "((sys_reads w + 2) mod 60) mod 8 \<noteq> 0" by (rule after_multiple_of_8) simp
  then show ?thesis using True
    apply (subst pause_program.simps)
    apply (simp add: t sec_word_mod8 Let_def cout_put_def sleep_for_def)
    apply (subst pause_program.simps)
    apply (simp add: t sec_word_mod8 Let_def cout_put_def sleep_for_def)
    done
qed

lemma ticking_pause_optimized:
  assumes t: "ticks env"
  shows "pause_optimized env sec b w \<noteq> None"
proof (cases "sec mod 8 = 0")
  case False
  then show ?thesis by (subst pause_optimized.simps) simp
next
  case True
  show ?thesis
  proof (cases "(sys_reads w mod 60) mod 8 = 0")
    case False
    with True show ?thesis
      apply (subst pause_optimized.simps)
      apply (simp add: t Let_def cout_put_def sleep_for_def)
      apply (subst pause_optimized.simps)
      apply (simp add: t)
      done
  next
    case a: True
    then have "((sys_reads w + 1) mod 60) mod 8 \<noteq> 0" by (rule after_multiple_of_8) simp
    with True a show ?thesis
      apply (subst pause_optimized.simps)
      apply (simp add: t Let_def cout_put_def sleep_for_def)
      apply (subst pause_optimized.simps)
      apply (simp add: t Let_def cout_put_def sleep_for_def)
      apply (subst pause_optimized.simps)
      apply (simp add: t)
      done
  qed
qed

lemma ticking_count_program:
  assumes t: "ticks env" and "sys_reads w = Suc k"
  shows "count_program env c cs (of_nat (k mod 60)) (of_nat (k mod 60)) its (0 :: 32 word) b w
     \<noteq> None"
proof -
  have "(Suc k) mod 60 \<noteq> k mod 60" by (rule next_second_differs)
  then show ?thesis using assms(2)
    apply (subst count_program.simps)
    apply (simp add: t sec_word_eq Let_def)
    apply (subst count_program.simps)
    apply (simp add: t sec_word_eq Let_def)
    done
qed

lemma ticking_measure_program:
  assumes t: "ticks env"
  shows "measure_program env c (cycles :: 32 word) w \<noteq> None"
proof -
  obtain b w1 where p: "pause_program env (of_nat (sys_reads w mod 60) * 100 :: 32 word) []
      (w\<lparr>sys_reads := Suc (sys_reads w)\<rparr>) = Some (b, w1)"
    using ticking_pause_program [OF t] by (metis not_None_eq surj_pair)
  have "timed_program env c cycles b w1 \<noteq> None"
    by (simp add: t timed_program_def Let_def cout_put_def ticking_count_program [OF t]
        split: option.splits)
  then show ?thesis using p by (simp add: t measure_program_def Let_def)
qed

lemma ticking_count_optimized:
  assumes t: "ticks env" and "steady_reads w = Suc k"
  shows "count_optimized env c cs (int k * 500000000 + 1000000000) its (0 :: 32 word) b w
     \<noteq> None"
  using assms(2)
  apply (subst count_optimized.simps)
  apply (simp add: t Let_def)
  apply (subst count_optimized.simps)
  apply (simp add: t Let_def)
  done

lemma ticking_measure_optimized:
  assumes t: "ticks env"
  shows "measure_optimized env c (cycles :: 32 word) w \<noteq> None"
proof -
  obtain b w1 where p: "pause_optimized env (sys_reads w mod 60) []
      (w\<lparr>sys_reads := Suc (sys_reads w)\<rparr>) = Some (b, w1)"
    using ticking_pause_optimized [OF t] by (metis not_None_eq surj_pair)
  have "timed_optimized env c cycles b w1 \<noteq> None"
    by (simp add: t timed_optimized_def second_def Let_def cout_put_def ticking_count_optimized [OF t]
        split: option.splits)
  then show ?thesis using p by (simp add: t measure_optimized_def Let_def)
qed

section \<open>A run that overflows the counter\<close>

lemma count_optimized_linear:
  assumes clock: "steady_clock env = (\<lambda>k. int k)"
  shows "steady_reads w \<le> e \<Longrightarrow>
    \<exists>b' w'. count_optimized env c cs (int e) its i b w
       = Some (if steady_reads w = e then its else i + of_nat (e - steady_reads w), b', w')"
proof (induction "e - steady_reads w" arbitrary: its i b w)
  case 0
  then have "steady_reads w = e" by simp
  then show ?case
    by (subst count_optimized.simps) (simp add: steady_now_def clock)
next
  case (Suc n)
  then have lt: "steady_reads w < e" by simp
  define w1 where "w1 = w\<lparr>steady_reads := Suc (steady_reads w)\<rparr>"
  have n: "e - steady_reads w = Suc n" using Suc.hyps(2) by simp
  have res: "(if steady_reads w = e then its else i + of_nat (e - steady_reads w))
      = i + 1 + of_nat n" using lt n by simp
  show ?case
  proof (cases "(i + 1) mod 100000 = 0")
    case False
    have n1: "n = e - steady_reads w1" "steady_reads w1 \<le> e"
      using Suc.hyps(2) lt by (simp_all add: w1_def)
    from Suc.hyps(1) [OF n1, of "i + 1" "i + 1" b] obtain b' w' where
      "count_optimized env c cs (int e) (i + 1) (i + 1) b w1
         = Some (if steady_reads w1 = e then i + 1 else i + 1 + of_nat (e - steady_reads w1), b', w')"
      by blast
    then have "count_optimized env c cs (int e) (i + 1) (i + 1) b w1
         = Some (i + 1 + of_nat n, b', w')"
      using n1 by (cases "n = 0") (auto simp: w1_def)
    then have "count_optimized env c cs (int e) its i b w = Some (i + 1 + of_nat n, b', w')"
      using lt False
      by (subst count_optimized.simps) (simp add: steady_now_def clock Let_def w1_def)
    then show ?thesis unfolding res by blast
  next
    case True
    define w2 where "w2 = snd (system_now env w1)"
    define b2 where "b2 = b @ progress_line env c cs (i + 1) (fst (system_now env w1))"
    have sr: "steady_reads w2 = steady_reads w1" by (simp add: w2_def system_now_def)
    have n1: "n = e - steady_reads w2" "steady_reads w2 \<le> e"
      using Suc.hyps(2) lt by (simp_all add: sr w1_def)
    from Suc.hyps(1) [OF n1, of "i + 1" "i + 1" b2] obtain b' w' where
      "count_optimized env c cs (int e) (i + 1) (i + 1) b2 w2
         = Some (if steady_reads w2 = e then i + 1 else i + 1 + of_nat (e - steady_reads w2), b', w')"
      by blast
    then have "count_optimized env c cs (int e) (i + 1) (i + 1) b2 w2
         = Some (i + 1 + of_nat n, b', w')"
      using n1 by (cases "n = 0") auto
    then have "count_optimized env c cs (int e) its i b w = Some (i + 1 + of_nat n, b', w')"
      using lt True
      by (subst count_optimized.simps)
         (simp add: steady_now_def clock Let_def w1_def w2_def b2_def split_beta)
    then show ?thesis unfolding res by blast
  qed
qed

lemma nanosecond_steps_fields [simp]:
  "steady_clock nanosecond_steps = (\<lambda>k. int k)"
  "system_clock nanosecond_steps k = 1000000000"
  "tm_sec nanosecond_steps 1000000000 = 1"
  "path_exists nanosecond_steps p"
  by (simp_all add: nanosecond_steps_def ticking_def)

lemma nanosecond_steps_measure:
  "\<exists>s b w'. measure_optimized nanosecond_steps c cycles w = Some (999999999, s, b, w')"
proof -
  define w1 where "w1 = snd (system_now nanosecond_steps (snd (system_now nanosecond_steps w)))"
  define w2 where "w2 = snd (steady_now nanosecond_steps w1)"
  define w3 where "w3 = cout_put (ready_line (dateTimeToString nanosecond_steps 1000000000))
      (snd (system_now nanosecond_steps w2))"
  have sr: "steady_reads w3 = Suc (steady_reads w)"
    by (simp add: w3_def w2_def w1_def io_defs)
  have le: "steady_reads w3 \<le> steady_reads w + 1000000000" by (simp add: sr)
  from count_optimized_linear [OF nanosecond_steps_fields(1) le, of c cycles 0 0 "[]"]
  obtain b' w' where
    "count_optimized nanosecond_steps c cycles (int (steady_reads w + 1000000000)) 0 0 [] w3
       = Some (of_nat 999999999, b', w')"
    by (auto simp: sr)
  then have "count_optimized nanosecond_steps c cycles (int (steady_reads w) + 1000000000) 0 0 [] w3
       = Some (999999999, b', w')"
    by simp
  then show ?thesis
    apply (simp add: measure_optimized_def Let_def split_beta)
    apply (subst pause_optimized.simps)
    apply (simp add: system_now_def timed_optimized_def Let_def split_beta second_def
        w3_def w2_def w1_def steady_now_def)
    done
qed

lemma cycle_loop_all:
  "cycle_loop m env cycles c s rs w = Some y \<Longrightarrow>
   (\<And>c s w r s' w'. run_cycle m env cycles c s w = Some (r, s', w') \<Longrightarrow> Q r) \<Longrightarrow>
   list_all Q rs \<Longrightarrow> list_all Q (fst y)"
proof (induction m env cycles c s rs w y rule: cycle_loop.raw_induct[rotated 1, consumes 1])
  case (1 f m env cycles c s rs w y)
  show ?case
  proof (cases "c \<le> cycles")
    case False
    with "1.hyps" "1.prems"(2) show ?thesis by auto
  next
    case True
    with "1.hyps" obtain r s1 w1 where rc: "run_cycle m env cycles c s w = Some (r, s1, w1)"
      and rec: "f m env cycles (c + 1) s1 (rs @ [r]) w1 = Some y"
      by (auto split: option.splits)
    have "list_all Q (rs @ [r])" using "1.prems"(2) "1.prems"(1) [OF rc] by simp
    from "1.IH" [OF rec "1.prems"(1) this] show ?thesis by simp
  qed
qed

lemma run_cycle_iterations:
  assumes "run_cycle m env cycles c s w = Some (r, s', w')"
  shows "\<exists>st b w1 w2. m env c cycles w1 = Some (iterationCount r, st, b, w2)"
  using assms
  by (fastforce simp: run_cycle_def Let_def split_beta split: option.splits)

lemma sum_list_const:
  "list_all (\<lambda>r. f r = (k::nat)) rs \<Longrightarrow> sum_list (map f rs) = length rs * k"
  by (induction rs) auto

lemma nanosecond_steps_run:
  "map_option (total_and_sum \<circ> fst)
     (program_optimized nanosecond_steps ''5 '' world0 :: (32 outcome \<times> world) option)
   = Some (Some 705032699, 4999999995)"
proof -
  have acc: "fst (read_cycles ''5 '' world0 :: 32 word \<times> world) = 5"
    by (simp add: read_cycles_def cin_extract_def strip_sign_def isspace_def isdigit_def
        digits_value_def digit_value_def Let_def)
  have tot: "\<forall>c w. measure_optimized nanosecond_steps c (5 :: 32 word) w \<noteq> None"
    using nanosecond_steps_measure [where 'a = 32] by (metis option.simps(3))
  have dirs: "path_exists nanosecond_steps (logDetailDir nanosecond_steps)"
    "path_exists nanosecond_steps (iterationDir nanosecond_steps)" by simp_all
  have st: "startup nanosecond_steps ''5 '' world0
      = (5 :: 32 word, fst (snd (startup nanosecond_steps ''5 '' world0 :: 32 word \<times> _)),
         snd (snd (startup nanosecond_steps ''5 '' world0 :: 32 word \<times> _)))"
    using startup_cycles [of nanosecond_steps "''5 ''" world0, where 'a = 32] acc
    by (metis prod.collapse)
  have "(5 :: 32 word) \<noteq> - 1" by simp
  with main_completes [where m = measure_optimized and env = nanosecond_steps
      and input = "''5 ''" and w = world0 and cycles = "5 :: 32 word"] dirs acc tot
  obtain out w' sm where run: "main measure_optimized nanosecond_steps ''5 '' world0 = Some (out :: 32 outcome, w')"
    and ix: "map (unat \<circ> cycleIndex) (cycle_results out) = [1..<Suc (unat (5 :: 32 word))]"
    and sm: "summary out = Some sm"
    and total: "unat (totalIterations sm)
         = sum_list (map (unat \<circ> iterationCount) (cycle_results out)) mod 2 ^ LENGTH(32)"
    by auto
  have len: "length (cycle_results out) = 5"
    using arg_cong [OF ix, of length] by simp
  from run main_run [OF dirs st, of measure_optimized]
  obtain s w2 where cl: "cycle_loop measure_optimized nanosecond_steps (5 :: 32 word) 1 0 []
       (snd (snd (startup nanosecond_steps ''5 '' world0 :: 32 word \<times> _))) = Some (cycle_results out, s, w2)"
    by (auto split: option.splits)
  have "list_all (\<lambda>r. iterationCount r = 999999999) (fst (cycle_results out, s, w2))"
  proof (rule cycle_loop_all [OF cl])
    fix c s w r s' w'
    assume "run_cycle measure_optimized nanosecond_steps (5 :: 32 word) c s w = Some (r, s', w')"
    from run_cycle_iterations [OF this] nanosecond_steps_measure [where 'a = 32]
    show "iterationCount r = 999999999" by (metis option.inject prod.inject)
  qed simp
  then have "list_all (\<lambda>r. (unat \<circ> iterationCount) r = 999999999) (cycle_results out)"
    by (simp add: list_all_iff)
  from sum_list_const [OF this] len
  have sum: "sum_list (map (unat \<circ> iterationCount) (cycle_results out)) = 4999999995"
    by (simp add: comp_def)
  have "total_and_sum out = (Some 705032699, 4999999995)"
    using sm total sum by (simp add: total_and_sum_def)
  then show ?thesis using run by (simp add: program_optimized_def)
qed

section \<open>The counting loops\<close>

subsection \<open>The loop bounded by the steady clock\<close>

lemma count_optimized_exit:
  "count_optimized env c cs e its i b w = Some y \<Longrightarrow>
     \<exists>n. steady_reads (snd (snd y)) = steady_reads w + Suc n
       \<and> (\<forall>k<n. steady_clock env (steady_reads w + k) < e)
       \<and> \<not> steady_clock env (steady_reads w + n) < e
       \<and> fst y = (if n = 0 then its else i + of_nat n)
       \<and> slept (snd (snd y)) = slept w"
proof (induction env c cs e its i b w y rule: count_optimized.raw_induct[rotated 1, consumes 1])
  case (1 f env c cs e its i b w y)
  show ?case
  proof (cases "steady_clock env (steady_reads w) < e")
    case False
    with "1.hyps" have "y = (its, b, w\<lparr>steady_reads := Suc (steady_reads w)\<rparr>)"
      by (simp add: steady_now_def)
    with False show ?thesis by (intro exI [of _ 0]) simp
  next
    case True
    define w1 where "w1 = w\<lparr>steady_reads := Suc (steady_reads w)\<rparr>"
    from True "1.hyps" obtain b2 w2 where
      rec: "f env c cs e (i + 1) (i + 1) b2 w2 = Some y"
      and w2: "steady_reads w2 = Suc (steady_reads w)" "slept w2 = slept w"
      by (auto simp: steady_now_def system_now_def Let_def split: if_splits prod.splits)
    from "1.IH" [OF rec] obtain n where
      n: "steady_reads (snd (snd y)) = steady_reads w2 + Suc n"
      "\<forall>k<n. steady_clock env (steady_reads w2 + k) < e"
      "\<not> steady_clock env (steady_reads w2 + n) < e"
      "fst y = (if n = 0 then i + 1 else i + 1 + of_nat n)"
      "slept (snd (snd y)) = slept w2"
      by blast
    have a: "\<forall>k<Suc n. steady_clock env (steady_reads w + k) < e"
    proof (intro allI impI)
      fix k assume k: "k < Suc n"
      show "steady_clock env (steady_reads w + k) < e"
      proof (cases k)
        case 0
        with True show ?thesis by simp
      next
        case (Suc j)
        with k n(2) w2(1) show ?thesis by simp
      qed
    qed
    have "steady_reads (snd (snd y)) = steady_reads w + Suc (Suc n)" using n(1) w2(1) by simp
    moreover have "\<not> steady_clock env (steady_reads w + Suc n) < e" using n(3) w2(1) by simp
    moreover have "fst y = (if Suc n = 0 then its else i + of_nat (Suc n))"
      using n(4) by (simp add: add.assoc add.commute)
    moreover have "slept (snd (snd y)) = slept w" using n(5) w2(2) by simp
    ultimately show ?thesis using a by blast
  qed
qed

lemma count_optimized_returns:
  "\<not> steady_clock env (steady_reads w + n) < e \<Longrightarrow>
     count_optimized env c cs e its i b w \<noteq> None"
proof (induction n arbitrary: its i b w)
  case 0
  then show ?case by (subst count_optimized.simps) (simp add: steady_now_def)
next
  case (Suc n)
  show ?case
  proof (cases "steady_clock env (steady_reads w) < e")
    case False
    then show ?thesis by (subst count_optimized.simps) (simp add: steady_now_def)
  next
    case True
    have r: "\<not> steady_clock env (steady_reads w' + n) < e"
      if "steady_reads w' = Suc (steady_reads w)" for w'
      using Suc.prems that by simp
    have ih: "count_optimized env c cs e its' i' b' w' \<noteq> None"
      if "steady_reads w' = Suc (steady_reads w)" for its' i' b' w'
      using Suc.IH [of w' its' i' b'] r [OF that] .
    show ?thesis
    proof (cases "(i + 1) mod 100000 = 0")
      case False
      with True ih [of "w\<lparr>steady_reads := Suc (steady_reads w)\<rparr>" "i + 1" "i + 1" b]
      show ?thesis
        by (subst count_optimized.simps) (simp add: steady_now_def Let_def)
    next
      case s: True
      with True ih [of "w\<lparr>steady_reads := Suc (steady_reads w), sys_reads := Suc (sys_reads w)\<rparr>"
          "i + 1" "i + 1" "b @ progress_line env c cs (i + 1) (system_clock env (sys_reads w))"]
      show ?thesis
        by (subst count_optimized.simps) (simp add: steady_now_def system_now_def Let_def)
    qed
  qed
qed

subsection \<open>What the loops write\<close>

lemma pause_program_shape:
  "pause_program env p b w = Some y \<Longrightarrow>
     \<exists>ps. fst y = b @ concat (map paused_line ps) \<and> slept (snd y) = slept w @ ps
        \<and> files (snd y) = files w \<and> steady_reads (snd y) = steady_reads w"
proof (induction env p b w y rule: pause_program.raw_induct[rotated 1, consumes 1])
  case (1 f env p b w y)
  obtain cur w1 where g: "getCurrentSecond env w = (cur :: 'a word, w1)"
    by (cases "getCurrentSecond env w :: 'a word \<times> world") auto
  have w1: "slept w1 = slept w" "files w1 = files w" "steady_reads w1 = steady_reads w"
    using g by (auto simp: io_defs)
  show ?case
  proof (cases "cur mod 8 \<noteq> 0")
    case True
    with "1.hyps" g have "y = (b, w1)" by simp
    with w1 show ?thesis by (intro exI [of _ "[]"]) simp
  next
    case False
    with "1.hyps" g obtain p2 w2 where
      rec: "f env p2 (b @ paused_line (unat p)) w2 = Some y"
      and w2: "slept w2 = slept w @ [unat p]" "files w2 = files w"
         "steady_reads w2 = steady_reads w"
      by (auto simp: io_defs Let_def split: prod.splits)
    from "1.IH" [OF rec] obtain ps where
      "fst y = (b @ paused_line (unat p)) @ concat (map paused_line ps)"
      "slept (snd y) = slept w2 @ ps" "files (snd y) = files w2"
      "steady_reads (snd y) = steady_reads w2" by blast
    with w2 show ?thesis by (intro exI [of _ "unat p # ps"]) simp
  qed
qed

lemma pause_optimized_shape:
  "pause_optimized env sec b w = Some y \<Longrightarrow>
     \<exists>ps. fst y = b @ concat (map paused_line ps) \<and> slept (snd y) = slept w @ ps
        \<and> files (snd y) = files w \<and> steady_reads (snd y) = steady_reads w"
proof (induction env sec b w y rule: pause_optimized.raw_induct[rotated 1, consumes 1])
  case (1 f env sec b w y)
  show ?case
  proof (cases "sec mod 8 = 0")
    case False
    with "1.hyps" have "y = (b, w)" by simp
    then show ?thesis by (intro exI [of _ "[]"]) simp
  next
    case True
    with "1.hyps" obtain sec2 w2 where
      rec: "f env sec2 (b @ paused_line (sec * 100)) w2 = Some y"
      and w2: "slept w2 = slept w @ [sec * 100]" "files w2 = files w"
         "steady_reads w2 = steady_reads w"
      by (auto simp: io_defs Let_def split: prod.splits)
    from "1.IH" [OF rec] obtain ps where
      "fst y = (b @ paused_line (sec * 100)) @ concat (map paused_line ps)"
      "slept (snd y) = slept w2 @ ps" "files (snd y) = files w2"
      "steady_reads (snd y) = steady_reads w2" by blast
    with w2 show ?thesis by (intro exI [of _ "(sec * 100) # ps"]) simp
  qed
qed

lemma progress_cons:
  "length stamps = length (filter sampled (counters (i + 1) n)) \<Longrightarrow>
   \<exists>stamps'. length stamps' = length (filter sampled (counters i (Suc n)))
     \<and> (if sampled (i + 1) then progress_line env c cs (i + 1) t else [])
         @ concat (map2 (progress_line env c cs) (filter sampled (counters (i + 1) n)) stamps)
       = concat (map2 (progress_line env c cs) (filter sampled (counters i (Suc n))) stamps')"
  by (cases "sampled (i + 1)") (auto intro: exI [of _ "t # stamps"])

lemma count_optimized_shape:
  "count_optimized env c cs e its i b w = Some y \<Longrightarrow>
     \<exists>n stamps. fst y = (if n = 0 then its else i + of_nat n)
        \<and> length stamps = length (filter sampled (counters i n))
        \<and> fst (snd y) = b @ concat (map2 (progress_line env c cs) (filter sampled (counters i n)) stamps)
        \<and> slept (snd (snd y)) = slept w \<and> files (snd (snd y)) = files w"
proof (induction env c cs e its i b w y rule: count_optimized.raw_induct[rotated 1, consumes 1])
  case (1 f env c cs e its i b w y)
  show ?case
  proof (cases "steady_clock env (steady_reads w) < e")
    case False
    with "1.hyps" have "y = (its, b, w\<lparr>steady_reads := Suc (steady_reads w)\<rparr>)"
      by (simp add: steady_now_def)
    then show ?thesis by (intro exI [of _ 0] exI [of _ "[]"]) simp
  next
    case True
    from True "1.hyps" obtain t w2 where
      rec: "f env c cs e (i + 1) (i + 1)
              (b @ (if sampled (i + 1) then progress_line env c cs (i + 1) t else [])) w2 = Some y"
      and w2: "slept w2 = slept w" "files w2 = files w"
      by (auto simp: steady_now_def system_now_def sampled_def Let_def
          split: if_splits prod.splits)
    from "1.IH" [OF rec] obtain n stamps where
      n: "fst y = (if n = 0 then i + 1 else i + 1 + of_nat n)"
      "length stamps = length (filter sampled (counters (i + 1) n))"
      "fst (snd y) = (b @ (if sampled (i + 1) then progress_line env c cs (i + 1) t else []))
          @ concat (map2 (progress_line env c cs) (filter sampled (counters (i + 1) n)) stamps)"
      "slept (snd (snd y)) = slept w2" "files (snd (snd y)) = files w2"
      by blast
    from progress_cons [OF n(2), of env c cs t] obtain stamps' where
      s: "length stamps' = length (filter sampled (counters i (Suc n)))"
      "(if sampled (i + 1) then progress_line env c cs (i + 1) t else [])
         @ concat (map2 (progress_line env c cs) (filter sampled (counters (i + 1) n)) stamps)
       = concat (map2 (progress_line env c cs) (filter sampled (counters i (Suc n))) stamps')"
      by blast
    have a: "fst y = (if Suc n = 0 then its else i + of_nat (Suc n))"
      using n(1) by (simp add: add.assoc add.commute)
    have b: "fst (snd y)
        = b @ concat (map2 (progress_line env c cs) (filter sampled (counters i (Suc n))) stamps')"
      using n(3) s(2) by simp
    show ?thesis
      apply (rule exI [of _ "Suc n"])
      apply (rule exI [of _ stamps'])
      using a b s(1) n(4,5) w2 apply simp
      done
  qed
qed

subsection \<open>The loop bounded by the second of the wall clock\<close>

lemma reads_upto_Suc:
  "reads_upto i (Suc n) = (if sampled (i + 1) then 3 else 1) + reads_upto (i + 1) n"
  by (simp add: reads_upto_def)

lemma reads_upto_0 [simp]: "reads_upto i 0 = 0"
  by (simp add: reads_upto_def)

lemma count_program_pass:
  assumes "(if (i + 1 :: 'w::len word) mod 100000 = 0 then
             let (currentSecond :: 'w word, w) = getCurrentSecond env w;
                 (progressTp, w) = system_now env w;
                 buffer = b @ progress_line env c cs (i + 1) progressTp;
                 (currentSecond :: 'w word, w) = getCurrentSecond env w
             in f env c cs ss currentSecond (i + 1) (i + 1) buffer w
           else
             let (currentSecond :: 'w word, w) = getCurrentSecond env w
             in f env c cs ss currentSecond (i + 1) (i + 1) b w) = Some y"
  shows "\<exists>t w1. f env c cs ss (wall_second env (sys_reads w + reads_upto i 1 - 1)) (i + 1) (i + 1)
             (b @ (if sampled (i + 1) then progress_line env c cs (i + 1) t else [])) w1 = Some y
          \<and> sys_reads w1 = sys_reads w + reads_upto i 1
          \<and> slept w1 = slept w \<and> files w1 = files w \<and> steady_reads w1 = steady_reads w"
proof (cases "(i + 1) mod 100000 = 0")
  case True
  then have r: "reads_upto i 1 = 3" by (simp add: reads_upto_def sampled_def)
  show ?thesis
    apply (rule exI [of _ "system_clock env (Suc (sys_reads w))"])
    apply (rule exI [of _ "w\<lparr>sys_reads := Suc (Suc (Suc (sys_reads w)))\<rparr>"])
    using True assms r
    apply (simp add: io_defs Let_def sampled_def wall_second_def del: One_nat_def)
    done
next
  case False
  then have r: "reads_upto i 1 = 1" by (simp add: reads_upto_def sampled_def)
  show ?thesis
    apply (rule exI [of _ 0])
    apply (rule exI [of _ "w\<lparr>sys_reads := Suc (sys_reads w)\<rparr>"])
    using False assms r
    apply (simp add: io_defs Let_def sampled_def wall_second_def del: One_nat_def)
    done
qed

lemma count_program_trace:
  "count_program env c cs ss cur its i b w = Some y \<Longrightarrow>
     (cur \<noteq> ss \<longrightarrow> y = (its, b, w)) \<and>
     (cur = ss \<longrightarrow> (\<exists>n stamps.
          fst y = i + of_nat (Suc n)
        \<and> sys_reads (snd (snd y)) = sys_reads w + reads_upto i (Suc n)
        \<and> (\<forall>k<n. wall_second env (sys_reads w + reads_upto i (Suc k) - 1) = ss)
        \<and> wall_second env (sys_reads w + reads_upto i (Suc n) - 1) \<noteq> ss
        \<and> length stamps = length (filter sampled (counters i (Suc n)))
        \<and> fst (snd y)
            = b @ concat (map2 (progress_line env c cs) (filter sampled (counters i (Suc n))) stamps)
        \<and> slept (snd (snd y)) = slept w \<and> files (snd (snd y)) = files w
        \<and> steady_reads (snd (snd y)) = steady_reads w))"
proof (induction env c cs ss cur its i b w y rule: count_program.raw_induct[rotated 1, consumes 1])
  case (1 f env c cs ss cur its i b w y)
  show ?case
  proof (cases "cur = ss")
    case False
    with "1.hyps" show ?thesis by simp
  next
    case True
    define cur1 :: "'a word" where "cur1 = wall_second env (sys_reads w + reads_upto i 1 - 1)"
    from True "1.hyps" have
      "(if (i + 1) mod 100000 = 0 then
             let (currentSecond :: 'a word, w) = getCurrentSecond env w;
                 (progressTp, w) = system_now env w;
                 buffer = b @ progress_line env c cs (i + 1) progressTp;
                 (currentSecond :: 'a word, w) = getCurrentSecond env w
             in f env c cs ss currentSecond (i + 1) (i + 1) buffer w
           else
             let (currentSecond :: 'a word, w) = getCurrentSecond env w
             in f env c cs ss currentSecond (i + 1) (i + 1) b w) = Some y"
      by (simp add: Let_def)
    from count_program_pass [where f = f and env = env and c = c and cs = cs and ss = ss
        and i = i and b = b and w = w and y = y, OF this] obtain t w1 where
      rec: "f env c cs ss cur1 (i + 1) (i + 1)
             (b @ (if sampled (i + 1) then progress_line env c cs (i + 1) t else [])) w1 = Some y"
      and w1: "sys_reads w1 = sys_reads w + reads_upto i 1"
        "slept w1 = slept w" "files w1 = files w" "steady_reads w1 = steady_reads w"
      unfolding cur1_def by blast
    note ih = "1.IH" [OF rec]
    have ex: "\<exists>n stamps.
          fst y = i + of_nat (Suc n)
        \<and> sys_reads (snd (snd y)) = sys_reads w + reads_upto i (Suc n)
        \<and> (\<forall>k<n. wall_second env (sys_reads w + reads_upto i (Suc k) - 1) = ss)
        \<and> wall_second env (sys_reads w + reads_upto i (Suc n) - 1) \<noteq> ss
        \<and> length stamps = length (filter sampled (counters i (Suc n)))
        \<and> fst (snd y)
            = b @ concat (map2 (progress_line env c cs) (filter sampled (counters i (Suc n))) stamps)
        \<and> slept (snd (snd y)) = slept w \<and> files (snd (snd y)) = files w
        \<and> steady_reads (snd (snd y)) = steady_reads w"
    proof (cases "cur1 = ss")
      case False
      with ih have y: "y = (i + 1, b @ (if sampled (i + 1) then progress_line env c cs (i + 1) t else []), w1)"
        by simp
      show ?thesis
        apply (rule exI [of _ 0])
        apply (rule exI [of _ "if sampled (i + 1) then [t] else []"])
        using y w1 False
        apply (simp add: cur1_def)
        done
    next
      case c1: True
      with ih obtain n stamps where
        n: "fst y = i + 1 + of_nat (Suc n)"
        "sys_reads (snd (snd y)) = sys_reads w1 + reads_upto (i + 1) (Suc n)"
        "\<forall>k<n. wall_second env (sys_reads w1 + reads_upto (i + 1) (Suc k) - 1) = ss"
        "wall_second env (sys_reads w1 + reads_upto (i + 1) (Suc n) - 1) \<noteq> ss"
        "length stamps = length (filter sampled (counters (i + 1) (Suc n)))"
        "fst (snd y) = (b @ (if sampled (i + 1) then progress_line env c cs (i + 1) t else []))
           @ concat (map2 (progress_line env c cs) (filter sampled (counters (i + 1) (Suc n))) stamps)"
        "slept (snd (snd y)) = slept w1" "files (snd (snd y)) = files w1"
        "steady_reads (snd (snd y)) = steady_reads w1"
        by blast
      have r1: "reads_upto i 1 = (if sampled (i + 1) then 3 else 1)"
        by (simp add: reads_upto_def)
      have ru: "sys_reads w1 + reads_upto (i + 1) m = sys_reads w + reads_upto i (Suc m)" for m
        using w1(1) r1 by (simp add: reads_upto_Suc [of i m])
      from progress_cons [OF n(5), of env c cs t] obtain stamps' where
        s: "length stamps' = length (filter sampled (counters i (Suc (Suc n))))"
        "(if sampled (i + 1) then progress_line env c cs (i + 1) t else [])
           @ concat (map2 (progress_line env c cs) (filter sampled (counters (i + 1) (Suc n))) stamps)
         = concat (map2 (progress_line env c cs) (filter sampled (counters i (Suc (Suc n)))) stamps')"
        by blast
      have a: "fst y = i + of_nat (Suc (Suc n))"
        using n(1) by (simp add: add.assoc add.commute)
      have b: "\<forall>k<Suc n. wall_second env (sys_reads w + reads_upto i (Suc k) - 1) = ss"
      proof (intro allI impI)
        fix k assume k: "k < Suc n"
        show "wall_second env (sys_reads w + reads_upto i (Suc k) - 1) = ss"
        proof (cases k)
          case 0
          with c1 show ?thesis by (simp add: cur1_def)
        next
          case (Suc j)
          with k n(3) have "wall_second env (sys_reads w1 + reads_upto (i + 1) (Suc j) - 1) = ss"
            by simp
          then show ?thesis unfolding ru Suc .
        qed
      qed
      have c: "fst (snd y)
          = b @ concat (map2 (progress_line env c cs) (filter sampled (counters i (Suc (Suc n)))) stamps')"
        using n(6) s(2) by simp
      show ?thesis
        apply (rule exI [of _ "Suc n"])
        apply (rule exI [of _ stamps'])
        using a b c s(1) n(2,4,7,8,9) w1(2,3,4) unfolding ru
        apply simp
        done
    qed
    with True show ?thesis by simp
  qed
qed

subsection \<open>Steps 8 and 9\<close>

lemma count_program_returns:
  "wall_second env (sys_reads w + reads_upto i (Suc n) - 1) \<noteq> ss \<Longrightarrow>
     count_program env c cs ss cur its i b w \<noteq> None"
proof (induction n arbitrary: cur its i b w)
  case 0
  show ?case
  proof (cases "cur = ss")
    case False
    then show ?thesis by (subst count_program.simps) simp
  next
    case True
    show ?thesis
    proof (cases "(i + 1) mod 100000 = 0")
      case s: True
      then have "reads_upto i (Suc 0) = 3" by (simp add: reads_upto_def sampled_def)
      with "0.prems" have "(wall_second env (Suc (Suc (sys_reads w))) :: 'a word) \<noteq> ss" by simp
      with True s show ?thesis
        apply (subst count_program.simps)
        apply (simp add: Let_def io_defs wall_second_def)
        apply (subst count_program.simps)
        apply simp
        done
    next
      case s: False
      then have "reads_upto i (Suc 0) = 1" by (simp add: reads_upto_def sampled_def)
      with "0.prems" have "(wall_second env (sys_reads w) :: 'a word) \<noteq> ss" by simp
      with True s show ?thesis
        apply (subst count_program.simps)
        apply (simp add: Let_def io_defs wall_second_def)
        apply (subst count_program.simps)
        apply simp
        done
    qed
  qed
next
  case (Suc n)
  show ?case
  proof (cases "cur = ss")
    case False
    then show ?thesis by (subst count_program.simps) simp
  next
    case True
    have ih: "count_program env c cs ss cur' its' (i + 1) b' w' \<noteq> None"
      if "sys_reads w' = sys_reads w + (if sampled (i + 1) then 3 else 1)" for cur' its' b' w'
    proof (rule Suc.IH)
      have "sys_reads w' + reads_upto (i + 1) (Suc n) = sys_reads w + reads_upto i (Suc (Suc n))"
        using that by (simp add: reads_upto_Suc [of i "Suc n"])
      with Suc.prems show "wall_second env (sys_reads w' + reads_upto (i + 1) (Suc n) - 1) \<noteq> ss"
        by simp
    qed
    show ?thesis
    proof (cases "(i + 1) mod 100000 = 0")
      case s: True
      with True ih [of "w\<lparr>sys_reads := Suc (Suc (Suc (sys_reads w)))\<rparr>"
          "of_nat (tm_sec env (system_clock env (Suc (Suc (sys_reads w)))))" "i + 1"
          "b @ progress_line env c cs (i + 1) (system_clock env (Suc (sys_reads w)))"]
      show ?thesis
        by (subst count_program.simps) (simp add: Let_def io_defs sampled_def)
    next
      case s: False
      with True ih [of "w\<lparr>sys_reads := Suc (sys_reads w)\<rparr>"
          "of_nat (tm_sec env (system_clock env (sys_reads w)))" "i + 1" b]
      show ?thesis
        by (subst count_program.simps) (simp add: Let_def io_defs sampled_def)
    qed
  qed
qed

lemma timed_optimized_exit:
  assumes "timed_optimized env c cs b w = Some (its, st, b', w')"
  shows "\<exists>n. its = of_nat n \<and> steady_reads w' = steady_reads w + n + 2
      \<and> (\<forall>k<n. steady_clock env (steady_reads w + 1 + k) - steady_clock env (steady_reads w)
                  < 1 * second)
      \<and> 1 * second \<le> steady_clock env (steady_reads w + 1 + n) - steady_clock env (steady_reads w)
      \<and> slept w' = slept w"
proof -
  define w1 where "w1 = cout_put (ready_line (dateTimeToString env (fst (system_now env w))))
    (snd (system_now env (snd (steady_now env (snd (system_now env w))))))"
  define e where "e = steady_clock env (steady_reads w) + 1 * second"
  have w1: "steady_reads w1 = Suc (steady_reads w)" "slept w1 = slept w"
    by (simp_all add: w1_def io_defs)
  from assms have "count_optimized env c cs e 0 0 b w1 = Some (its, b', w')"
    by (auto simp: timed_optimized_def Let_def split_beta w1_def e_def steady_now_def
        system_now_def split: option.splits)
  from count_optimized_exit [OF this] obtain n where
    n: "steady_reads w' = steady_reads w1 + Suc n"
    "\<forall>k<n. steady_clock env (steady_reads w1 + k) < e"
    "\<not> steady_clock env (steady_reads w1 + n) < e"
    "its = (if n = 0 then 0 else 0 + of_nat n)"
    "slept w' = slept w1" by auto
  have "its = of_nat n" using n(4) by simp
  moreover have "steady_reads w' = steady_reads w + n + 2" using n(1) w1(1) by simp
  moreover have "\<forall>k<n. steady_clock env (steady_reads w + 1 + k) - steady_clock env (steady_reads w)
                  < 1 * second"
    using n(2) w1(1) by (simp add: e_def diff_less_eq add.commute)
  moreover have "1 * second \<le> steady_clock env (steady_reads w + 1 + n) - steady_clock env (steady_reads w)"
    using n(3) w1(1) by (simp add: e_def)
  ultimately show ?thesis using n(5) w1(2) by simp
qed

lemma timed_optimized_returns:
  assumes "1 * second \<le> steady_clock env (steady_reads w + 1 + n) - steady_clock env (steady_reads w)"
  shows "timed_optimized env c cs b w \<noteq> None"
proof -
  define w1 where "w1 = cout_put (ready_line (dateTimeToString env (fst (system_now env w))))
    (snd (system_now env (snd (steady_now env (snd (system_now env w))))))"
  define e where "e = steady_clock env (steady_reads w) + 1 * second"
  have w1: "steady_reads w1 = Suc (steady_reads w)"
    by (simp_all add: w1_def io_defs)
  have "\<not> steady_clock env (steady_reads w1 + n) < e" using assms w1 by (simp add: e_def)
  from count_optimized_returns [OF this, of c cs 0 0 b]
  show ?thesis
    by (auto simp: timed_optimized_def Let_def split_beta w1_def e_def steady_now_def
        system_now_def split: option.splits)
qed

lemma timed_program_exit:
  assumes "timed_program env c cs b w = Some (its :: 'w::len word, st, b', w')"
  shows "\<exists>n. its = of_nat (Suc n) \<and> sys_reads w' = sys_reads w + 3 + reads_upto (0 :: 'w word) (Suc n)
      \<and> (\<forall>k<n. (wall_second env (sys_reads w + 2 + reads_upto (0 :: 'w word) (Suc k)) :: 'w word)
                  = wall_second env (sys_reads w + 2))
      \<and> (wall_second env (sys_reads w + 2 + reads_upto (0 :: 'w word) (Suc n)) :: 'w word)
          \<noteq> wall_second env (sys_reads w + 2)
      \<and> slept w' = slept w \<and> steady_reads w' = steady_reads w"
proof -
  define w1 where "w1 = snd (system_now env (cout_put (ready_line (dateTimeToString env (fst (system_now env w))))
    (snd (system_now env w))))"
  define w2 where "w2 = w1\<lparr>sys_reads := Suc (sys_reads w1)\<rparr>"
  define ss :: "'w word" where "ss = wall_second env (sys_reads w + 2)"
  have w2: "sys_reads w2 = sys_reads w + 3" "slept w2 = slept w" "steady_reads w2 = steady_reads w"
    by (simp_all add: w2_def w1_def io_defs)
  from assms have "count_program env c cs ss ss 0 0 b w2 = Some (its, b', w')"
    by (auto simp: timed_program_def Let_def split_beta w1_def w2_def ss_def io_defs
        wall_second_def split: option.splits)
  from count_program_trace [OF this] obtain n where
    n: "its = 0 + of_nat (Suc n)"
    "sys_reads w' = sys_reads w2 + reads_upto (0 :: 'w word) (Suc n)"
    "\<forall>k<n. (wall_second env (sys_reads w2 + reads_upto (0 :: 'w word) (Suc k) - 1) :: 'w word) = ss"
    "(wall_second env (sys_reads w2 + reads_upto (0 :: 'w word) (Suc n) - 1) :: 'w word) \<noteq> ss"
    "slept w' = slept w2" "steady_reads w' = steady_reads w2"
    by auto
  have a: "sys_reads w2 + m - 1 = sys_reads w + 2 + m" for m using w2(1) by simp
  show ?thesis
    apply (rule exI [of _ n])
    using n w2 unfolding a ss_def apply simp
    done
qed

lemma timed_program_returns:
  assumes "(wall_second env (sys_reads w + 2 + reads_upto (0 :: 'w word) (Suc n)) :: 'w::len word)
          \<noteq> wall_second env (sys_reads w + 2)"
  shows "timed_program env c cs b w \<noteq> (None :: ('w word \<times> string \<times> string \<times> world) option)"
proof -
  define w1 where "w1 = snd (system_now env (cout_put (ready_line (dateTimeToString env (fst (system_now env w))))
    (snd (system_now env w))))"
  define w2 where "w2 = w1\<lparr>sys_reads := Suc (sys_reads w1)\<rparr>"
  define ss :: "'w word" where "ss = wall_second env (sys_reads w + 2)"
  have w2: "sys_reads w2 = sys_reads w + 3"
    by (simp_all add: w2_def w1_def io_defs)
  have "(wall_second env (sys_reads w2 + reads_upto (0 :: 'w word) (Suc n) - 1) :: 'w word) \<noteq> ss"
    using assms w2 by (simp add: ss_def)
  from count_program_returns [OF this, of c cs ss 0 b]
  show ?thesis
    by (auto simp: timed_program_def Let_def split_beta w1_def w2_def ss_def io_defs
        wall_second_def split: option.splits)
qed

section \<open>The record of a cycle\<close>

lemma measure_program_shape:
  assumes "measure_program env c cs w = Some (its :: 'w::len word, st, b, w')"
  shows "\<exists>pauses n stamps. its = of_nat (Suc n) \<and> slept w' = slept w @ pauses
      \<and> length stamps = length (filter sampled (counters (0 :: 'w word) (Suc n)))
      \<and> b = concat (map paused_line pauses)
            @ concat (map2 (progress_line env c cs) (filter sampled (counters 0 (Suc n))) stamps)
      \<and> files w' = files w"
proof -
  from assms obtain p w1 b1 w2 where
    p: "pause_program env (p :: 'w word) [] w1 = Some (b1, w2)"
    and w1: "slept w1 = slept w" "files w1 = files w"
    and t: "timed_program env c cs b1 w2 = Some (its, st, b, w')"
    by (auto simp: measure_program_def Let_def split_beta io_defs split: option.splits)
  from pause_program_shape [OF p] obtain ps where
    ps: "b1 = concat (map paused_line ps)" "slept w2 = slept w1 @ ps" "files w2 = files w1"
    by auto
  from t obtain ss w3 where
    cp: "count_program env c cs ss ss 0 0 b1 w3 = Some (its, b, w')"
    and w3: "slept w3 = slept w2" "files w3 = files w2"
    by (auto simp: timed_program_def Let_def split_beta io_defs split: option.splits)
  from count_program_trace [OF cp] obtain n stamps where
    n: "its = 0 + of_nat (Suc n)"
    "length stamps = length (filter sampled (counters (0 :: 'w word) (Suc n)))"
    "b = b1 @ concat (map2 (progress_line env c cs) (filter sampled (counters 0 (Suc n))) stamps)"
    "slept w' = slept w3" "files w' = files w3"
    by auto
  show ?thesis
    apply (rule exI [of _ ps])
    apply (rule exI [of _ n])
    apply (rule exI [of _ stamps])
    using n ps w1 w3 apply simp
    done
qed

lemma measure_optimized_shape:
  assumes "measure_optimized env c cs w = Some (its :: 'w::len word, st, b, w')"
  shows "\<exists>pauses n stamps. its = of_nat n \<and> slept w' = slept w @ pauses
      \<and> length stamps = length (filter sampled (counters (0 :: 'w word) n))
      \<and> b = concat (map paused_line pauses)
            @ concat (map2 (progress_line env c cs) (filter sampled (counters 0 n)) stamps)
      \<and> files w' = files w"
proof -
  from assms obtain sec w1 b1 w2 where
    p: "pause_optimized env sec [] w1 = Some (b1, w2)"
    and w1: "slept w1 = slept w" "files w1 = files w"
    and t: "timed_optimized env c cs b1 w2 = Some (its, st, b, w')"
    by (auto simp: measure_optimized_def Let_def split_beta io_defs split: option.splits)
  from pause_optimized_shape [OF p] obtain ps where
    ps: "b1 = concat (map paused_line ps)" "slept w2 = slept w1 @ ps" "files w2 = files w1"
    by auto
  from t obtain e w3 where
    cp: "count_optimized env c cs e 0 0 b1 w3 = Some (its, b, w')"
    and w3: "slept w3 = slept w2" "files w3 = files w2"
    by (auto simp: timed_optimized_def Let_def split_beta io_defs split: option.splits)
  from count_optimized_shape [OF cp] obtain n stamps where
    n: "its = (if n = 0 then 0 else 0 + of_nat n)"
    "length stamps = length (filter sampled (counters (0 :: 'w word) n))"
    "b = b1 @ concat (map2 (progress_line env c cs) (filter sampled (counters 0 n)) stamps)"
    "slept w' = slept w3" "files w' = files w3"
    by auto
  have "its = of_nat n" using n(1) by simp
  then show ?thesis
    apply -
    apply (rule exI [of _ ps])
    apply (rule exI [of _ n])
    apply (rule exI [of _ stamps])
    using n(2-) ps w1 w3 apply simp
    done
qed

lemma measure_shape:
  assumes "m = measure_program \<or> m = measure_optimized"
    and "m env c cs w = Some (its :: 'w::len word, st, b, w')"
  shows "\<exists>pauses n stamps. its = of_nat n \<and> slept w' = slept w @ pauses
      \<and> length stamps = length (filter sampled (counters (0 :: 'w word) n))
      \<and> b = concat (map paused_line pauses)
            @ concat (map2 (progress_line env c cs) (filter sampled (counters 0 n)) stamps)
      \<and> files w' = files w"
  using assms measure_program_shape [of env c cs w its st b w']
    measure_optimized_shape [of env c cs w its st b w']
  by blast

lemma ofstream_files:
  "files (ofstream_write env q t w) = files (ofstream_write env q t w0)" if "files w = files w0"
  using that by (simp add: ofstream_write_def)

lemma ofstream_closed:
  "\<not> is_open env p \<Longrightarrow> files (ofstream_write env q t w) p = files w p"
  "\<not> is_open env p \<Longrightarrow> files (ofstream_app env q t w) p = files w p"
  by (auto simp: ofstream_write_def ofstream_app_def)

lemma run_cycle_shape:
  assumes m: "m = measure_program \<or> m = measure_optimized"
    and rc: "run_cycle m env cycles c s w = Some (r :: 'w::len cycle_result, s', w')"
  shows "\<exists>pauses n stamps.
       cycleIndex r = c \<and> iterationCount r = of_nat n \<and> s' = s + iterationCount r
     \<and> slept w' = slept w @ pauses
     \<and> length stamps = length (filter sampled (counters (0 :: 'w word) n))
     \<and> files w'
         = files (ofstream_app env (iterationLogPath env)
             (log_block c (iterationCount r) (startTimestamp r) (endTimestamp r))
             (ofstream_write env
                (detailFilePath env (strftime env (system_clock env (sys_reads w))) cycles c)
                (detail_text env c cycles pauses n stamps (iterationCount r)
                   (startTimestamp r) (endTimestamp r)) w))"
proof -
  define w0 where "w0 = snd (getFileTimestamp env (cout_put (running_line c cycles) w))"
  have w0: "slept w0 = slept w" "files w0 = files w" by (simp_all add: w0_def io_defs)
  from rc obtain its st b w1 where
    ms: "m env c cycles w0 = Some (its, st, b, w1)"
    and r: "r = \<lparr>cycleIndex = c, iterationCount = its, startTimestamp = st,
              endTimestamp = dateTimeToString env (fst (system_now env w1))\<rparr>"
    and s': "s' = s + its"
    and w': "w' = ofstream_app env (iterationLogPath env)
                (log_block c its st (dateTimeToString env (fst (system_now env w1))))
                (cout_put (b @ iterations_line env its st (dateTimeToString env (fst (system_now env w1))))
                  (ofstream_write env
                    (detailFilePath env (strftime env (system_clock env (sys_reads w))) cycles c)
                    (b @ iterations_line env its st (dateTimeToString env (fst (system_now env w1))))
                    (cout_put (detailFilePath env (strftime env (system_clock env (sys_reads w))) cycles c @ endl)
                      (snd (system_now env w1)))))"
    by (auto simp: run_cycle_def Let_def split_beta w0_def getFileTimestamp_def system_now_def
        cout_put_def split: option.splits)
  from measure_shape [OF m ms] obtain pauses n stamps where
    sh: "its = of_nat n" "slept w1 = slept w0 @ pauses"
    "length stamps = length (filter sampled (counters (0 :: 'w word) n))"
    "b = concat (map paused_line pauses)
            @ concat (map2 (progress_line env c cycles) (filter sampled (counters 0 n)) stamps)"
    "files w1 = files w0"
    by blast
  have f: "files w' = files (ofstream_app env (iterationLogPath env)
             (log_block c its st (endTimestamp r))
             (ofstream_write env
                (detailFilePath env (strftime env (system_clock env (sys_reads w))) cycles c)
                (detail_text env c cycles pauses n stamps its st (endTimestamp r)) w))"
    unfolding w' using sh(4,5) w0(2)
    by (simp add: r detail_text_def ofstream_app_def ofstream_write_def cout_put_def system_now_def)
  have sl: "slept w' = slept w @ pauses"
    unfolding w' using sh(2) w0(1)
    by (simp add: ofstream_app_def ofstream_write_def cout_put_def system_now_def)
  show ?thesis
    apply (rule exI [of _ pauses])
    apply (rule exI [of _ n])
    apply (rule exI [of _ stamps])
    using f sl sh(1,3) s' apply (simp add: r)
    done
qed

section \<open>Runs of one cycle\<close>

lemma read_one: "read_cycles ''1 '' w = (1 :: 32 word, w)"
  by (simp add: read_cycles_def cin_extract_def strip_sign_def isspace_def isdigit_def
        digits_value_def digit_value_def Let_def)

lemma startup_one:
  "\<exists>t0 w1. startup env ''1 '' w = (1 :: 32 word, t0, w1) \<and> sys_reads w1 = sys_reads w + 2
     \<and> slept w1 = slept w \<and> cerr w1 = cerr w \<and> steady_reads w1 = steady_reads w"
  by (simp add: startup_def read_one Let_def io_defs)

lemma final_summary_frame:
  "slept (snd (final_summary env cycles t0 s w)) = slept w"
  "steady_reads (snd (final_summary env cycles t0 s w)) = steady_reads w"
  by (simp_all add: final_summary_def Let_def split_beta io_defs)

lemma main_one_cycle:
  fixes m :: "'w::len measurement"
  assumes dirs: "path_exists env (logDetailDir env)" "path_exists env (iterationDir env)"
    and st: "startup env input w = (1 :: 'w::len word, t0, w1)"
    and rc: "run_cycle m env 1 1 0 w1 = Some (r, s, w2)"
    and two: "\<not> (1 + 1 :: 'w word) \<le> 1"
  shows "main m env input w
     = Some (\<lparr>exit_code = 0, cycle_results = [r],
                summary = Some (fst (final_summary env 1 t0 s w2))\<rparr>,
             snd (final_summary env 1 t0 s w2))"
proof -
  have "cycle_loop m env 1 (1 + 1) s [r] w2 = Some ([r], s, w2)"
    by (subst cycle_loop.simps) (rule if_not_P [OF two])
  then have "cycle_loop m env 1 1 0 [] w1 = Some ([r], s, w2)"
    using rc by (subst cycle_loop.simps) simp
  then show ?thesis using main_run [OF dirs st, of m] by simp
qed

lemma boundary_cycle_program:
  assumes "sys_reads w = 2"
  shows "\<exists>r w'. run_cycle measure_program boundary (1 :: 32 word) 1 s w = Some (r, s + 1, w')
     \<and> slept w' = slept w @ [700]"
  using assms
  by (simp add: Let_def run_cycle_def measure_program_def timed_program_def
      pause_program.simps count_program.simps boundary_def ticking_def io_defs)

lemma boundary_cycle_optimized:
  assumes "sys_reads w = 2" "steady_reads w = 0"
  shows "\<exists>r w'. run_cycle measure_optimized boundary (1 :: 32 word) 1 s w = Some (r, s + 1, w')
     \<and> slept w' = slept w"
  using assms
  by (simp add: Let_def run_cycle_def measure_optimized_def timed_optimized_def second_def
      pause_optimized.simps count_optimized.simps boundary_def ticking_def io_defs)

lemma boundary_dirs:
  "path_exists boundary p"
  by (simp add: boundary_def ticking_def)

lemma boundary_program_slept:
  "map_option (slept \<circ> snd) (program boundary ''1 '' world0 :: (32 outcome \<times> world) option)
     = Some [700]"
proof -
  obtain t0 w1 where st: "startup boundary ''1 '' world0 = (1 :: 32 word, t0, w1)"
    and w1: "sys_reads w1 = 2" "slept w1 = []"
    using startup_one [of boundary world0] by (auto simp: world0_def)
  obtain r w2 where rc: "run_cycle measure_program boundary (1 :: 32 word) 1 0 w1 = Some (r, 0 + 1, w2)"
    and w2: "slept w2 = slept w1 @ [700]"
    using boundary_cycle_program [OF w1(1), of 0] by blast
  have two: "\<not> (1 + 1 :: 32 word) \<le> 1" by (simp add: word_le_nat_alt)
  show ?thesis
    unfolding program_def main_one_cycle [OF boundary_dirs boundary_dirs st rc two]
    using w2 w1(2) by (simp add: final_summary_frame)
qed

lemma boundary_optimized_slept:
  "map_option (slept \<circ> snd) (program_optimized boundary ''1 '' world0 :: (32 outcome \<times> world) option)
     = Some []"
proof -
  obtain t0 w1 where st: "startup boundary ''1 '' world0 = (1 :: 32 word, t0, w1)"
    and w1: "sys_reads w1 = 2" "slept w1 = []" "steady_reads w1 = 0"
    using startup_one [of boundary world0] by (auto simp: world0_def)
  obtain r w2 where rc: "run_cycle measure_optimized boundary (1 :: 32 word) 1 0 w1 = Some (r, 0 + 1, w2)"
    and w2: "slept w2 = slept w1"
    using boundary_cycle_optimized [OF w1(1) w1(3), of 0] by blast
  have two: "\<not> (1 + 1 :: 32 word) \<le> 1" by (simp add: word_le_nat_alt)
  show ?thesis
    unfolding program_optimized_def main_one_cycle [OF boundary_dirs boundary_dirs st rc two]
    using w2 w1(2) by (simp add: final_summary_frame)
qed

section \<open>Files that cannot be opened\<close>

lemma detail_path_not_log:
  "detailFilePath env stamp cycles c \<noteq> iterationLogPath env"
proof -
  define cp where "cp = (if current_path env = [] \<or> last (current_path env) = CHR ''/''
    then current_path env else current_path env @ ''/'')"
  have d: "logDetailDir env = cp @ ''CycleLogDetail''"
    by (simp add: logDetailDir_def path_append_def cp_def)
  have i: "iterationDir env = cp @ ''CycleLog''"
    by (simp add: iterationDir_def path_append_def cp_def)
  have "detailFilePath env stamp cycles c
      = cp @ ''CycleLogDetail/'' @ (''T '' @ stamp @ '' '' @ setw2 (unat cycles) @ '' - ''
          @ setw2 (unat c) @ ''.txt'')"
    by (simp add: detailFilePath_def d path_append_def)
  moreover have "iterationLogPath env = cp @ ''CycleLog/Iteration.txt''"
    by (simp add: iterationLogPath_def i path_append_def)
  ultimately show ?thesis by simp
qed

lemma closed_path_frame:
  assumes "\<not> is_open env p"
  shows "files (ofstream_write env q t w) p = files w p"
    and "files (ofstream_app env q t w) p = files w p"
  using assms by (auto simp: ofstream_write_def ofstream_app_def)

lemma measure_files:
  assumes "m = measure_program \<or> m = measure_optimized"
    and "m env c cs w = Some (its, st, b, w')"
  shows "files w' = files w"
  using measure_shape [OF assms] by blast

lemma run_cycle_closed_path:
  assumes m: "m = measure_program \<or> m = measure_optimized"
    and rc: "run_cycle m env cycles c s w = Some (r, s', w')"
    and cl: "\<not> is_open env p"
  shows "files w' p = files w p"
proof -
  from run_cycle_shape [OF m rc] obtain t b where
    "files w' = files (ofstream_app env (iterationLogPath env) b
        (ofstream_write env
          (detailFilePath env (strftime env (system_clock env (sys_reads w))) cycles c) t w))"
    by blast
  then show ?thesis using cl by (simp add: closed_path_frame)
qed

lemma cycle_loop_closed_path:
  "cycle_loop m env cycles c s rs w = Some y \<Longrightarrow> m = measure_program \<or> m = measure_optimized
     \<Longrightarrow> \<not> is_open env p \<Longrightarrow> files (snd (snd y)) p = files w p"
proof (induction m env cycles c s rs w y rule: cycle_loop.raw_induct[rotated 1, consumes 1])
  case (1 f m env cycles c s rs w y)
  show ?case
  proof (cases "c \<le> cycles")
    case False
    with "1.hyps" show ?thesis by auto
  next
    case True
    with "1.hyps" obtain r s1 w1 where rc: "run_cycle m env cycles c s w = Some (r, s1, w1)"
      and rec: "f m env cycles (c + 1) s1 (rs @ [r]) w1 = Some y"
      by (auto split: option.splits)
    from "1.IH" [OF rec "1.prems"] run_cycle_closed_path [OF "1.prems"(1) rc "1.prems"(2)]
    show ?thesis by simp
  qed
qed

lemma startup_closed_path:
  "\<not> is_open env p \<Longrightarrow> files (snd (snd (startup env input w :: 'w::len word \<times> _ \<times> _))) p = files w p"
  by (simp add: startup_def Let_def split_beta closed_path_frame system_now_def cout_put_def
      read_cycles_def cerr_put_def split: option.splits)

lemma final_summary_closed_path:
  "\<not> is_open env p \<Longrightarrow> files (snd (final_summary env cycles t0 s w)) p = files w p"
  by (simp add: final_summary_def Let_def split_beta closed_path_frame system_now_def cout_put_def)

lemma main_quiet:
  fixes out :: "'w::len outcome"
  assumes m: "m = measure_program \<or> m = measure_optimized"
    and dirs: "path_exists env (logDetailDir env)" "path_exists env (iterationDir env)"
    and run: "main m env input w = Some (out, w')"
  shows "cerr w' = cerr (snd (read_cycles input w :: 'w word \<times> world))"
    and "\<not> is_open env p \<Longrightarrow> files w' p = files w p"
proof -
  obtain cycles t0 w1 where st: "startup env input w = (cycles :: 'w word, t0, w1)"
    by (cases "startup env input w :: 'w word \<times> time_point \<times> world") auto
  from run main_run [OF dirs st, of m]
  obtain rs s w2 where cl: "cycle_loop m env cycles 1 0 [] w1 = Some (rs, s, w2)"
    and w': "w' = snd (final_summary env cycles t0 s w2)"
    by (auto split: option.splits)
  have "cerr w1 = cerr (snd (read_cycles input w :: 'w word \<times> world))"
    using startup_cerr [of env input w, where 'w = 'w] st by simp
  moreover have "cerr w2 = cerr w1" using cycle_loop_cerr [OF cl m] by simp
  ultimately show "cerr w' = cerr (snd (read_cycles input w :: 'w word \<times> world))"
    by (simp add: w' final_summary_cerr)
  assume p: "\<not> is_open env p"
  have "files w1 p = files w p"
    using startup_closed_path [OF p, of input w, where 'w = 'w] st by simp
  moreover have "files w2 p = files w1 p" using cycle_loop_closed_path [OF cl m p] by simp
  ultimately show "files w' p = files w p"
    by (simp add: w' final_summary_closed_path [OF p])
qed

lemma main_summary_dirs:
  assumes "main m env input w = Some (out, w')" and "summary out = Some sm"
  shows "path_exists env (logDetailDir env) \<and> path_exists env (iterationDir env)"
  using assms by (auto simp: main_def Let_def split: if_splits)

section \<open>Runs on a file system that refuses a file\<close>

lemma main_runs_quietly:
  fixes cycles :: "'w::len word"
  assumes m: "m = measure_program \<or> m = measure_optimized"
    and dirs: "path_exists env (logDetailDir env)" "path_exists env (iterationDir env)"
    and acc: "fst (read_cycles input w) = cycles"
    and nomax: "cycles \<noteq> - 1"
    and tot: "\<forall>c w. m env c cycles w \<noteq> None"
  shows "\<exists>out w'. main m env input w = Some (out, w') \<and> exit_code out = 0
     \<and> map (unat \<circ> cycleIndex) (cycle_results out) = [1..<Suc (unat cycles)]
     \<and> cerr w' = cerr (snd (read_cycles input w :: 'w word \<times> world))
     \<and> (\<forall>p. \<not> is_open env p \<longrightarrow> files w' p = files w p)"
proof -
  from main_completes [where m = m and env = env and input = input and w = w
      and cycles = cycles] dirs acc nomax tot
  obtain out w' where run: "main m env input w = Some (out, w')" and ex: "exit_code out = 0"
    and ix: "map (unat \<circ> cycleIndex) (cycle_results out) = [1..<Suc (unat cycles)]"
    by blast
  from main_quiet [OF m dirs run] ex ix run show ?thesis by blast
qed

lemma paths_is_open [simp]:
  "logDetailDir (env\<lparr>is_open := f\<rparr>) = logDetailDir env"
  "iterationDir (env\<lparr>is_open := f\<rparr>) = iterationDir env"
  "iterationLogPath (env\<lparr>is_open := f\<rparr>) = iterationLogPath env"
  "detailFilePath (env\<lparr>is_open := f\<rparr>) stamp cycles c = detailFilePath env stamp cycles c"
  by (simp_all add: logDetailDir_def iterationDir_def iterationLogPath_def detailFilePath_def)

lemma no_detail_facts:
  "ticks no_detail" "path_exists no_detail p"
  "\<not> is_open no_detail (detailFilePath no_detail stamp cycles c)"
  "is_open no_detail (iterationLogPath no_detail)"
  using detail_path_not_log [of ticking stamp cycles c]
  by (simp_all add: no_detail_def) (simp add: ticking_def)

lemma no_log_facts:
  "ticks no_log" "path_exists no_log p"
  "\<not> is_open no_log (iterationLogPath no_log)"
  "is_open no_log (detailFilePath no_log stamp cycles c)"
  using detail_path_not_log [of ticking stamp cycles c]
  by (simp_all add: no_log_def) (simp add: ticking_def)

lemma read_two: "read_cycles ''2 '' w = (2 :: 32 word, w)"
  by (simp add: read_cycles_def cin_extract_def strip_sign_def isspace_def isdigit_def
        digits_value_def digit_value_def Let_def)

lemma upt_one_two: "[1..<Suc (unat (1 :: 32 word))] = [1]" "[1..<Suc (unat (2 :: 32 word))] = [1, 2]"
  by (simp_all add: upt_conv_Cons)

section \<open>Claim C1: every accepted cycle runs, and the total\<close>

lemma cycle_loop_max_diverges: "cycle_loop m env (- 1) c s rs w = None"
  using cycle_loop_Some_not_max [of m env "- 1" c s rs w] by (cases "cycle_loop m env (- 1) c s rs w") auto

lemma max_count_run:
  "(program_optimized nanosecond_steps ''4294967295 '' world0 :: (32 outcome \<times> world) option) = None"
proof -
  have acc: "fst (read_cycles ''4294967295 '' world0 :: 32 word \<times> world) = - 1"
    by (simp add: read_cycles_def cin_extract_def strip_sign_def isspace_def isdigit_def
        digits_value_def digit_value_def Let_def)
  have dirs: "path_exists nanosecond_steps (logDetailDir nanosecond_steps)"
    "path_exists nanosecond_steps (iterationDir nanosecond_steps)" by simp_all
  have st: "startup nanosecond_steps ''4294967295 '' world0
      = (- 1 :: 32 word, fst (snd (startup nanosecond_steps ''4294967295 '' world0 :: 32 word \<times> _)),
         snd (snd (startup nanosecond_steps ''4294967295 '' world0 :: 32 word \<times> _)))"
    using startup_cycles [of nanosecond_steps "''4294967295 ''" world0, where 'a = 32] acc
    by (metis prod.collapse)
  show ?thesis
    unfolding program_optimized_def main_run [OF dirs st]
    by (simp add: cycle_loop_max_diverges)
qed

text \<open>
  Claim C1, as amended. For every cycle count \<open>N\<close> accepted at startup that is below
  the largest value of \<^verbatim>\<open>n_type\<close>, in an environment where every measurement returns,
  the run completes, the cycle loop executes exactly \<open>N\<close> cycles with \<open>cycleIndex\<close>
  taking the values 1 to \<open>N\<close> in order, and the total of the summary is the sum of the
  iteration counts of the \<open>N\<close> cycles modulo \<open>2 ^ w\<close>, \<open>w\<close> the width of \<^verbatim>\<open>n_type\<close>.
\<close>

theorem every_accepted_cycle_runs:
  fixes cycles :: "'w::len word"
  assumes "path_exists env (logDetailDir env)" and "path_exists env (iterationDir env)"
    and "fst (read_cycles input w) = cycles"
    and "cycles \<noteq> - 1"
    and "\<forall>c w. m env c cycles w \<noteq> None"
  shows "\<exists>out w' sm. main m env input w = Some (out, w') \<and> exit_code out = 0
     \<and> 1 \<le> unat cycles
     \<and> map (unat \<circ> cycleIndex) (cycle_results out) = [1..<Suc (unat cycles)]
     \<and> summary out = Some sm \<and> cycleCount sm = cycles
     \<and> unat (totalIterations sm)
         = sum_list (map (unat \<circ> iterationCount) (cycle_results out)) mod 2 ^ LENGTH('w)"
proof -
  have "1 \<le> cycles" using read_cycles_positive [of input w, where 'w = 'w] assms(3) by simp
  then have "1 \<le> unat cycles" by (simp add: word_le_nat_alt)
  with main_completes [where m = m and env = env and input = input and w = w
      and cycles = cycles] assms
  show ?thesis by blast
qed

theorem every_accepted_cycle_runs_witness:
  "path_exists ticking (logDetailDir ticking) \<and> path_exists ticking (iterationDir ticking)
   \<and> fst (read_cycles ''2 '' world0) = (2 :: 32 word) \<and> (2 :: 32 word) \<noteq> - 1
   \<and> measure_program ticking 1 (2 :: 32 word) world0 \<noteq> None
   \<and> (\<exists>out w' sm. program ticking ''2 '' world0 = Some (out :: 32 outcome, w')
        \<and> exit_code out = 0
        \<and> map (unat \<circ> cycleIndex) (cycle_results out) = [1, 2]
        \<and> summary out = Some sm \<and> cycleCount sm = 2
        \<and> unat (totalIterations sm)
            = sum_list (map (unat \<circ> iterationCount) (cycle_results out)) mod 2 ^ 32)"
proof -
  have dirs: "path_exists ticking (logDetailDir ticking)"
    "path_exists ticking (iterationDir ticking)"
    by (simp_all add: ticking_def)
  have acc: "fst (read_cycles ''2 '' world0) = (2 :: 32 word)"
    by (simp add: read_cycles_def cin_extract_def strip_sign_def isspace_def isdigit_def
        digits_value_def digit_value_def Let_def)
  have nomax: "(2 :: 32 word) \<noteq> - 1" by simp
  have tot: "\<forall>c w. measure_program ticking c (2 :: 32 word) w \<noteq> None"
    by (simp add: ticking_measure_program)
  have upt: "[1..<Suc (unat (2 :: 32 word))] = [1, 2]" by (simp add: upt_conv_Cons)
  from every_accepted_cycle_runs [where m = measure_program and env = ticking
      and input = "''2 ''" and w = world0 and cycles = "2 :: 32 word"] dirs acc nomax tot
  show ?thesis unfolding upt program_def by simp
qed

text \<open>
  Claim C1 as stated fails. With a 32-bit \<^verbatim>\<open>n_type\<close>, the input 5 and a steady clock
  that lets every cycle make 999,999,999 passes, the run reports the total 705,032,699
  while the sum of the five iteration counts is 4,999,999,995; and with the input
  4,294,967,295, which is accepted, the cycle loop never ends.
\<close>

theorem total_is_not_the_exact_sum:
  "map_option (total_and_sum \<circ> fst)
     (program_optimized nanosecond_steps ''5 '' world0 :: (32 outcome \<times> world) option)
     = Some (Some 705032699, 4999999995)
   \<and> fst (read_cycles ''4294967295 '' world0) = (4294967295 :: 32 word)
   \<and> (program_optimized nanosecond_steps ''4294967295 '' world0
        :: (32 outcome \<times> world) option) = None"
proof (intro conjI)
  show "map_option (total_and_sum \<circ> fst)
     (program_optimized nanosecond_steps ''5 '' world0 :: (32 outcome \<times> world) option)
     = Some (Some 705032699, 4999999995)"
    by (rule nanosecond_steps_run)
  show "fst (read_cycles ''4294967295 '' world0) = (4294967295 :: 32 word)"
    by (simp add: read_cycles_def cin_extract_def strip_sign_def isspace_def isdigit_def
        digits_value_def digit_value_def Let_def)
  show "(program_optimized nanosecond_steps ''4294967295 '' world0
        :: (32 outcome \<times> world) option) = None"
    by (rule max_count_run)
qed

section \<open>Claim C2: when the counting loop exits\<close>

lemma late_start_timed:
  "timed_program late_start (1 :: 32 word) 1 [] world0
     = Some (2, dateTimeToString late_start 850000000, [],
         world0\<lparr>sys_reads := 5, cout := ready_line (dateTimeToString late_start 800000000)\<rparr>)"
  by (simp add: timed_program_def count_program.simps late_start_def ticking_def world0_def
      io_defs Let_def dateTimeToString_def)

lemma ticking_timed_optimized:
  "timed_optimized ticking (1 :: 32 word) 1 [] world0
     = Some (1, dateTimeToString ticking 1000000000, [],
         world0\<lparr>sys_reads := 2, steady_reads := 3,
           cout := ready_line (dateTimeToString ticking 0)\<rparr>)"
  by (simp add: timed_optimized_def count_optimized.simps ticking_def world0_def
      io_defs Let_def dateTimeToString_def second_def)

lemma ticking_timed_program:
  "timed_program ticking (1 :: 32 word) 1 [] world0
     = Some (1, dateTimeToString ticking 1000000000, [],
         world0\<lparr>sys_reads := 4, cout := ready_line (dateTimeToString ticking 0)\<rparr>)"
  by (simp add: timed_program_def count_program.simps ticking_def world0_def
      io_defs Let_def dateTimeToString_def)

text \<open>
  Claim C2, as amended. Neither counting loop sleeps. In \<^verbatim>\<open>program_optimized.cxx\<close> the
  loop makes one pass for every reading of the steady clock that is less than one second
  after the recorded start and exits at the first reading that is one second or more
  after it; it returns as soon as there is such a reading. In \<^verbatim>\<open>program.cxx\<close> the loop
  reads the wall clock only: it makes at least one pass and exits at the first pass that
  ends with a second of the minute other than the one sampled at the start, whatever
  time has elapsed; it returns as soon as there is such a pass.
\<close>

theorem timed_loop_exit:
  fixes its :: "'w::len word"
  shows
  "(timed_optimized env c cs b w = Some (its, st, b', w') \<longrightarrow>
      (\<exists>n. its = of_nat n \<and> steady_reads w' = steady_reads w + n + 2
         \<and> (\<forall>k<n. steady_clock env (steady_reads w + 1 + k) - steady_clock env (steady_reads w)
                     < 1 * second)
         \<and> 1 * second
              \<le> steady_clock env (steady_reads w + 1 + n) - steady_clock env (steady_reads w)
         \<and> slept w' = slept w))
   \<and> (1 * second \<le> steady_clock env (steady_reads w + 1 + j) - steady_clock env (steady_reads w)
        \<longrightarrow> timed_optimized env c cs b w \<noteq> (None :: ('w word \<times> string \<times> string \<times> world) option))
   \<and> (timed_program env c cs b w = Some (its, st, b', w') \<longrightarrow>
      (\<exists>n. its = of_nat (Suc n)
         \<and> sys_reads w' = sys_reads w + 3 + reads_upto (0 :: 'w word) (Suc n)
         \<and> (\<forall>k<n. (wall_second env (sys_reads w + 2 + reads_upto (0 :: 'w word) (Suc k)) :: 'w word)
                     = wall_second env (sys_reads w + 2))
         \<and> (wall_second env (sys_reads w + 2 + reads_upto (0 :: 'w word) (Suc n)) :: 'w word)
              \<noteq> wall_second env (sys_reads w + 2)
         \<and> slept w' = slept w \<and> steady_reads w' = steady_reads w))
   \<and> ((wall_second env (sys_reads w + 2 + reads_upto (0 :: 'w word) (Suc j)) :: 'w word)
          \<noteq> wall_second env (sys_reads w + 2)
        \<longrightarrow> timed_program env c cs b w \<noteq> (None :: ('w word \<times> string \<times> string \<times> world) option))"
proof (intro conjI impI)
  assume "timed_optimized env c cs b w = Some (its, st, b', w')"
  then show "\<exists>n. its = of_nat n \<and> steady_reads w' = steady_reads w + n + 2
         \<and> (\<forall>k<n. steady_clock env (steady_reads w + 1 + k) - steady_clock env (steady_reads w)
                     < 1 * second)
         \<and> 1 * second
              \<le> steady_clock env (steady_reads w + 1 + n) - steady_clock env (steady_reads w)
         \<and> slept w' = slept w"
    by (rule timed_optimized_exit)
next
  assume "1 * second \<le> steady_clock env (steady_reads w + 1 + j) - steady_clock env (steady_reads w)"
  then show "timed_optimized env c cs b w \<noteq> (None :: ('w word \<times> string \<times> string \<times> world) option)"
    by (rule timed_optimized_returns)
next
  assume "timed_program env c cs b w = Some (its, st, b', w')"
  then show "\<exists>n. its = of_nat (Suc n)
         \<and> sys_reads w' = sys_reads w + 3 + reads_upto (0 :: 'w word) (Suc n)
         \<and> (\<forall>k<n. (wall_second env (sys_reads w + 2 + reads_upto (0 :: 'w word) (Suc k)) :: 'w word)
                     = wall_second env (sys_reads w + 2))
         \<and> (wall_second env (sys_reads w + 2 + reads_upto (0 :: 'w word) (Suc n)) :: 'w word)
              \<noteq> wall_second env (sys_reads w + 2)
         \<and> slept w' = slept w \<and> steady_reads w' = steady_reads w"
    by (rule timed_program_exit)
next
  assume "(wall_second env (sys_reads w + 2 + reads_upto (0 :: 'w word) (Suc j)) :: 'w word)
          \<noteq> wall_second env (sys_reads w + 2)"
  then show "timed_program env c cs b w \<noteq> (None :: ('w word \<times> string \<times> string \<times> world) option)"
    by (rule timed_program_returns)
qed

theorem timed_loop_exit_witness:
  "timed_optimized ticking (1 :: 32 word) 1 [] world0
     = Some (1, dateTimeToString ticking 1000000000, [],
         world0\<lparr>sys_reads := 2, steady_reads := 3,
           cout := ready_line (dateTimeToString ticking 0)\<rparr>)
   \<and> steady_clock ticking 1 - steady_clock ticking 0 < 1 * second
   \<and> 1 * second \<le> steady_clock ticking 2 - steady_clock ticking 0
   \<and> timed_program ticking (1 :: 32 word) 1 [] world0
     = Some (1, dateTimeToString ticking 1000000000, [],
         world0\<lparr>sys_reads := 4, cout := ready_line (dateTimeToString ticking 0)\<rparr>)
   \<and> (wall_second ticking 3 :: 32 word) \<noteq> wall_second ticking 2
   \<and> (\<exists>n. (1 :: 32 word) = of_nat n \<and> (3 :: nat) = 0 + n + 2)
   \<and> (\<exists>n. (1 :: 32 word) = of_nat (Suc n) \<and> (4 :: nat) = 0 + 3 + reads_upto (0 :: 32 word) (Suc n))"
proof -
  have a: "timed_optimized ticking (1 :: 32 word) 1 [] world0
     = Some (1, dateTimeToString ticking 1000000000, [],
         world0\<lparr>sys_reads := 2, steady_reads := 3,
           cout := ready_line (dateTimeToString ticking 0)\<rparr>)"
    by (rule ticking_timed_optimized)
  have b: "timed_program ticking (1 :: 32 word) 1 [] world0
     = Some (1, dateTimeToString ticking 1000000000, [],
         world0\<lparr>sys_reads := 4, cout := ready_line (dateTimeToString ticking 0)\<rparr>)"
    by (rule ticking_timed_program)
  have c: "steady_clock ticking 1 - steady_clock ticking 0 < 1 * second"
    "1 * second \<le> steady_clock ticking 2 - steady_clock ticking 0"
    by (simp_all add: ticking_def second_def)
  have d: "(wall_second ticking 3 :: 32 word) \<noteq> wall_second ticking 2"
    by (simp add: wall_second_def ticking_def)
  have r: "reads_upto (0 :: 32 word) (Suc 0) = 1" by (simp add: reads_upto_def sampled_def)
  have w: "steady_reads world0 = 0" "sys_reads world0 = 0" by (simp_all add: world0_def)
  note t = timed_loop_exit [where env = ticking and c = "1 :: 32 word" and cs = 1 and b = "[]"
      and w = world0 and its = 1 and st = "dateTimeToString ticking 1000000000" and b' = "[]"]
  from t [where w' = "world0\<lparr>sys_reads := 2, steady_reads := 3,
           cout := ready_line (dateTimeToString ticking 0)\<rparr>" and j = 1] a
  have e: "\<exists>n. (1 :: 32 word) = of_nat n \<and> (3 :: nat) = 0 + n + 2"
    by (auto simp: w)
  from t [where w' = "world0\<lparr>sys_reads := 4, cout := ready_line (dateTimeToString ticking 0)\<rparr>"
      and j = 0] b
  have f: "\<exists>n. (1 :: 32 word) = of_nat (Suc n) \<and> (4 :: nat) = 0 + 3 + reads_upto (0 :: 32 word) (Suc n)"
    by (auto simp: w)
  from a b c d e f show ?thesis by (intro conjI)
qed

text \<open>
  Claim C2 as stated fails for \<^verbatim>\<open>program.cxx\<close>. With a wall clock that shows 0.85 seconds
  when the start is recorded and passes to the next second 150 milliseconds later, the
  loop exits after two passes and five readings of the wall clock, the last one 150
  milliseconds after the recorded start, and the steady clock is never read.
\<close>

theorem wall_clock_loop_exits_early:
  "map_option (\<lambda>(its, st, b, w). (its, sys_reads w, steady_reads w))
     (timed_program late_start (1 :: 32 word) 1 [] world0) = Some (2, 5, 0)
   \<and> system_clock late_start 4 - system_clock late_start 1 = 150000000
   \<and> (150000000 :: int) < 1 * second"
  by (simp add: late_start_timed) (simp add: late_start_def world0_def second_def)

section \<open>Claim C3: the two variants from the outside\<close>

text \<open>
  Claim C3, as amended. In both variants a cycle that returns leaves a record of the same
  structure. Its index is the loop's counter and its iteration count is added to the
  running total. The detail file is written once, if it opens, with one
  \<^verbatim>\<open>Paused for\<close> line for every sleep of the alignment pause, in order, then one progress
  line for every value of the counter that is a multiple of 100,000, in order, then the
  \<^verbatim>\<open>Iterations\<close> line. After it the block of the cycle is appended to the iteration log.
  Which sleeps are made, how many passes are counted and which times are printed is not
  the same in the two variants.
\<close>

theorem cycle_record_shape:
  fixes r :: "'w::len cycle_result"
  assumes "m = measure_program \<or> m = measure_optimized"
    and "run_cycle m env cycles c s w = Some (r, s', w')"
  shows "\<exists>pauses n stamps.
       cycleIndex r = c \<and> iterationCount r = of_nat n \<and> s' = s + iterationCount r
     \<and> slept w' = slept w @ pauses
     \<and> length stamps = length (filter sampled (counters (0 :: 'w word) n))
     \<and> files w'
         = files (ofstream_app env (iterationLogPath env)
             (log_block c (iterationCount r) (startTimestamp r) (endTimestamp r))
             (ofstream_write env
                (detailFilePath env (strftime env (system_clock env (sys_reads w))) cycles c)
                (detail_text env c cycles pauses n stamps (iterationCount r)
                   (startTimestamp r) (endTimestamp r)) w))"
  using assms by (rule run_cycle_shape)

theorem cycle_record_shape_witness:
  "\<exists>r s' w'.
       run_cycle measure_program boundary (1 :: 32 word) 1 0 (world0\<lparr>sys_reads := 2\<rparr>)
         = Some (r, s', w')
     \<and> (\<exists>pauses n stamps. cycleIndex r = 1 \<and> iterationCount r = of_nat n \<and> s' = 0 + iterationCount r
     \<and> slept w' = slept (world0\<lparr>sys_reads := 2\<rparr>) @ pauses
     \<and> length stamps = length (filter sampled (counters (0 :: 32 word) n))
     \<and> files w'
         = files (ofstream_app boundary (iterationLogPath boundary)
             (log_block 1 (iterationCount r) (startTimestamp r) (endTimestamp r))
             (ofstream_write boundary
                (detailFilePath boundary
                   (strftime boundary (system_clock boundary (sys_reads (world0\<lparr>sys_reads := 2\<rparr>))))
                   (1 :: 32 word) 1)
                (detail_text boundary 1 1 pauses n stamps (iterationCount r)
                   (startTimestamp r) (endTimestamp r)) (world0\<lparr>sys_reads := 2\<rparr>))))"
proof -
  obtain r w' where
    rc: "run_cycle measure_program boundary (1 :: 32 word) 1 0 (world0\<lparr>sys_reads := 2\<rparr>)
           = Some (r, 0 + 1, w')"
    using boundary_cycle_program [of "world0\<lparr>sys_reads := 2\<rparr>" 0] by auto
  show ?thesis
    apply (rule exI [of _ r], rule exI [of _ "0 + 1"], rule exI [of _ w'])
    apply (rule conjI [OF rc])
    apply (rule cycle_record_shape [OF disjI1 [OF refl] rc])
    done
qed

text \<open>
  Claim C3 as stated does not hold. On the clock of \<open>boundary\<close> and the input 1,
  \<^verbatim>\<open>program.cxx\<close> sleeps once, for 700 milliseconds, and \<^verbatim>\<open>program_optimized.cxx\<close> does not
  sleep at all.
\<close>

theorem variants_sleep_differently:
  "map_option (slept \<circ> snd) (program boundary ''1 '' world0 :: (32 outcome \<times> world) option)
     = Some [700]
   \<and> map_option (slept \<circ> snd)
       (program_optimized boundary ''1 '' world0 :: (32 outcome \<times> world) option) = Some []"
  using boundary_program_slept boundary_optimized_slept by (rule conjI)

section \<open>Claim C4: the length of an alignment pause\<close>

lemma boundary_seconds:
  "map (\<lambda>k. tm_sec boundary (system_clock boundary k)) [3, 4, 5, 6] = [7, 8, 8, 9]"
  by (simp add: boundary_def ticking_def)

text \<open>
  Claim C4 at the clock of \<open>boundary\<close>, in \<^verbatim>\<open>program.cxx\<close>. Three calls of the wall clock
  have been made when the pause of the first cycle begins. The call from which
  \<^verbatim>\<open>pauseMs\<close> is computed shows second 7, the call that the loop tests shows second 8,
  and the program sleeps for 700 milliseconds, not for 800. The next two calls show
  seconds 8 and 9, and the pause ends there: that 700 is the only sleep of the cycle.
\<close>

theorem pause_length_from_the_earlier_sample:
  "map_option (\<lambda>(iterations, startStr, buffer, w). (buffer, slept w))
       (measure_program boundary (1 :: 32 word) 1 (world0\<lparr>sys_reads := 3\<rparr>))
     = Some (paused_line 700, [700])
   \<and> map (\<lambda>k. tm_sec boundary (system_clock boundary k)) [3, 4, 5, 6] = [7, 8, 8, 9]"
proof
  show "map_option (\<lambda>(iterations, startStr, buffer, w). (buffer, slept w))
       (measure_program boundary (1 :: 32 word) 1 (world0\<lparr>sys_reads := 3\<rparr>))
     = Some (paused_line 700, [700])"
    by (simp add: Let_def measure_program_def timed_program_def
      pause_program.simps count_program.simps boundary_def ticking_def io_defs world0_def)
  show "map (\<lambda>k. tm_sec boundary (system_clock boundary k)) [3, 4, 5, 6] = [7, 8, 8, 9]"
    by (rule boundary_seconds)
qed

section \<open>Claim C5: a detail file that cannot be opened\<close>

text \<open>
  Claim C5, as amended. In both variants, a cycle whose detail file cannot be opened does
  not abort the run: its iteration count is still added to the running total and the
  cycle loop goes on with the next cycle. The failure is not reported: the cycle writes
  nothing to the error stream, and the file is left as it was.
\<close>

theorem detail_file_failure_is_silent:
  fixes r :: "'w::len cycle_result"
  assumes "m = measure_program \<or> m = measure_optimized"
    and "c \<le> cycles"
    and "run_cycle m env cycles c s w = Some (r, s', w')"
    and "\<not> is_open env (detailFilePath env (strftime env (system_clock env (sys_reads w))) cycles c)"
  shows "s' = s + iterationCount r \<and> cerr w' = cerr w
     \<and> files w' (detailFilePath env (strftime env (system_clock env (sys_reads w))) cycles c)
         = files w (detailFilePath env (strftime env (system_clock env (sys_reads w))) cycles c)
     \<and> cycle_loop m env cycles c s rs w = cycle_loop m env cycles (c + 1) s' (rs @ [r]) w'"
proof (intro conjI)
  show "s' = s + iterationCount r" using run_cycle_shape [OF assms(1,3)] by blast
  show "cerr w' = cerr w" using assms(1,3) by (rule run_cycle_cerr)
  show "files w' (detailFilePath env (strftime env (system_clock env (sys_reads w))) cycles c)
      = files w (detailFilePath env (strftime env (system_clock env (sys_reads w))) cycles c)"
    using assms(1,3,4) by (rule run_cycle_closed_path)
  show "cycle_loop m env cycles c s rs w = cycle_loop m env cycles (c + 1) s' (rs @ [r]) w'"
    using assms(2,3) by (subst cycle_loop.simps) simp
qed

theorem detail_file_failure_is_silent_witness:
  "\<exists>r s' w'. run_cycle measure_program no_detail (1 :: 32 word) 1 0 world0 = Some (r, s', w')
     \<and> s' = 0 + iterationCount r \<and> cerr w' = cerr world0
     \<and> files w' (detailFilePath no_detail
           (strftime no_detail (system_clock no_detail (sys_reads world0))) (1 :: 32 word) 1)
         = files world0 (detailFilePath no_detail
           (strftime no_detail (system_clock no_detail (sys_reads world0))) (1 :: 32 word) 1)
     \<and> cycle_loop measure_program no_detail 1 1 0 [] world0
         = cycle_loop measure_program no_detail 1 (1 + 1) s' ([] @ [r]) w'"
proof -
  have "run_cycle measure_program no_detail (1 :: 32 word) 1 0 world0 \<noteq> None"
    by (rule run_cycle_returns) (rule ticking_measure_program [OF no_detail_facts(1)])
  then obtain r s' w' where
    rc: "run_cycle measure_program no_detail (1 :: 32 word) 1 0 world0 = Some (r, s', w')"
    by auto
  show ?thesis
    apply (rule exI [of _ r], rule exI [of _ s'], rule exI [of _ w'])
    apply (rule conjI [OF rc])
    apply (rule detail_file_failure_is_silent [OF disjI1 [OF refl] order_refl rc no_detail_facts(3)])
    done
qed

text \<open>
  Claim C5 as stated fails in its last part. On a file system where no detail file
  opens, the run with the input 1 completes with exit code 0 and one cycle, no detail
  file exists afterwards, and the error stream is empty.
\<close>

theorem unwritten_detail_file_is_not_reported:
  "\<exists>out w'. program no_detail ''1 '' world0 = Some (out :: 32 outcome, w')
     \<and> exit_code out = 0 \<and> map (unat \<circ> cycleIndex) (cycle_results out) = [1]
     \<and> (\<forall>stamp c. \<not> is_open no_detail (detailFilePath no_detail stamp (1 :: 32 word) c)
           \<and> files w' (detailFilePath no_detail stamp (1 :: 32 word) c) = None)
     \<and> cerr w' = []"
proof -
  have tot: "\<forall>c w. measure_program no_detail c (1 :: 32 word) w \<noteq> None"
    by (simp add: ticking_measure_program [OF no_detail_facts(1)])
  have acc: "fst (read_cycles ''1 '' world0) = (1 :: 32 word)" by (simp add: read_one)
  have nomax: "(1 :: 32 word) \<noteq> - 1" by simp
  from main_runs_quietly [OF disjI1 [OF refl] no_detail_facts(2) no_detail_facts(2) acc nomax tot]
  obtain out w' where run: "main measure_program no_detail ''1 '' world0 = Some (out :: 32 outcome, w')"
    and ex: "exit_code out = 0"
    and ix: "map (unat \<circ> cycleIndex) (cycle_results out) = [1]"
    and ce: "cerr w' = cerr world0"
    and fr: "\<forall>p. \<not> is_open no_detail p \<longrightarrow> files w' p = files world0 p"
    unfolding upt_one_two read_one snd_conv by (elim exE conjE) auto
  have dd: "\<forall>stamp c. \<not> is_open no_detail (detailFilePath no_detail stamp (1 :: 32 word) c)
           \<and> files w' (detailFilePath no_detail stamp (1 :: 32 word) c) = None"
    using fr by (simp add: no_detail_facts(3) world0_def)
  have ce': "cerr w' = []" using ce by (simp add: world0_def)
  show ?thesis unfolding program_def
    by (rule exI [of _ out], rule exI [of _ w']) (intro conjI run ex ix ce' dd)
qed

section \<open>Claim C6: an iteration log that cannot be opened\<close>

text \<open>
  Claim C6, as amended. In both variants, when the iteration log cannot be opened, no
  append to it writes anything and the run does not abort: for every accepted cycle
  count below the largest value of \<^verbatim>\<open>n_type\<close>, in an environment where every measurement
  returns, the run completes with exit code 0 and all its cycles, in order; the error
  stream holds what reading the input left there and nothing more, and the log is left
  as it was.
\<close>

theorem summary_log_failure_is_ignored:
  fixes cycles :: "'w::len word"
  assumes "m = measure_program \<or> m = measure_optimized"
    and "path_exists env (logDetailDir env)" and "path_exists env (iterationDir env)"
    and "fst (read_cycles input w) = cycles"
    and "cycles \<noteq> - 1"
    and "\<forall>c w. m env c cycles w \<noteq> None"
    and "\<not> is_open env (iterationLogPath env)"
  shows "\<exists>out w'. main m env input w = Some (out, w') \<and> exit_code out = 0
     \<and> map (unat \<circ> cycleIndex) (cycle_results out) = [1..<Suc (unat cycles)]
     \<and> cerr w' = cerr (snd (read_cycles input w :: 'w word \<times> world))
     \<and> files w' (iterationLogPath env) = files w (iterationLogPath env)"
  using main_runs_quietly [where m = m and env = env and input = input and w = w
      and cycles = cycles] assms by blast

theorem summary_log_failure_is_ignored_witness:
  "\<exists>out w'. program_optimized no_log ''1 '' world0 = Some (out :: 32 outcome, w')
     \<and> exit_code out = 0
     \<and> map (unat \<circ> cycleIndex) (cycle_results out) = [1]
     \<and> cerr w' = cerr (snd (read_cycles ''1 '' world0 :: 32 word \<times> world))
     \<and> files w' (iterationLogPath no_log) = files world0 (iterationLogPath no_log)"
proof -
  have tot: "\<forall>c w. measure_optimized no_log c (1 :: 32 word) w \<noteq> None"
    by (simp add: ticking_measure_optimized [OF no_log_facts(1)])
  have acc: "fst (read_cycles ''1 '' world0) = (1 :: 32 word)" by (simp add: read_one)
  have nomax: "(1 :: 32 word) \<noteq> - 1" by simp
  from summary_log_failure_is_ignored [where m = measure_optimized and env = no_log
      and input = "''1 ''" and w = world0 and cycles = "1 :: 32 word",
      OF disjI2 [OF refl] no_log_facts(2) no_log_facts(2) acc nomax tot no_log_facts(3)]
  show ?thesis unfolding program_optimized_def upt_one_two .
qed

text \<open>
  Claim C6 as stated fails. On a file system where the iteration log cannot be opened,
  the run with the input 2 executes both cycles and ends with exit code 0; the log does
  not exist afterwards and the error stream is empty.
\<close>

theorem run_continues_without_the_log:
  "\<exists>out w'. program no_log ''2 '' world0 = Some (out :: 32 outcome, w')
     \<and> exit_code out = 0 \<and> map (unat \<circ> cycleIndex) (cycle_results out) = [1, 2]
     \<and> \<not> is_open no_log (iterationLogPath no_log)
     \<and> files w' (iterationLogPath no_log) = None
     \<and> cerr w' = []"
proof -
  have tot: "\<forall>c w. measure_program no_log c (2 :: 32 word) w \<noteq> None"
    by (simp add: ticking_measure_program [OF no_log_facts(1)])
  have acc: "fst (read_cycles ''2 '' world0) = (2 :: 32 word)" by (simp add: read_two)
  have nomax: "(2 :: 32 word) \<noteq> - 1" by simp
  from main_runs_quietly [OF disjI1 [OF refl] no_log_facts(2) no_log_facts(2) acc nomax tot]
  obtain out w' where run: "main measure_program no_log ''2 '' world0 = Some (out :: 32 outcome, w')"
    and ex: "exit_code out = 0"
    and ix: "map (unat \<circ> cycleIndex) (cycle_results out) = [1, 2]"
    and ce: "cerr w' = cerr world0"
    and fr: "\<forall>p. \<not> is_open no_log p \<longrightarrow> files w' p = files world0 p"
    unfolding upt_one_two read_two snd_conv by (elim exE conjE) auto
  have lg: "files w' (iterationLogPath no_log) = None"
    using fr no_log_facts(3) by (simp add: world0_def)
  have ce': "cerr w' = []" using ce by (simp add: world0_def)
  show ?thesis unfolding program_def
    by (rule exI [of _ out], rule exI [of _ w']) (intro conjI run ex ix ce' lg no_log_facts(3))
qed

section \<open>Claim C7: input that is not a positive number\<close>

lemma extract_one: "cin_extract ''1 '' = Some (1 :: 'w::len word)"
proof -
  have "(2 :: nat) ^ 1 \<le> 2 ^ LENGTH('w)" by (rule power_increasing) (simp_all add: Suc_leI)
  then have "\<not> (2 :: nat) ^ LENGTH('w) - 1 < 1" by simp
  then show ?thesis
    by (simp add: cin_extract_def strip_sign_def isspace_def isdigit_def
        digits_value_def digit_value_def Let_def)
qed

lemma read_one_line: "read_cycles ''1 '' w = (1 :: 'w::len word, w)"
  by (simp add: read_cycles_def extract_one)

lemma read_invalid:
  assumes "(cin_extract input :: 'w::len word option) = None \<or> cin_extract input = Some (0 :: 'w word)"
  shows "read_cycles input w = (1 :: 'w word, cerr_put invalid_input_line w)"
  using assms by (auto simp: read_cycles_def)


lemma startup_one_any:
  "fst (startup env ''1 '' w) = (1 :: 'w::len word)"
  "cerr (snd (snd (startup env ''1 '' w :: 'w::len word \<times> _ \<times> _))) = cerr w"
  by (simp_all add: startup_def read_one_line Let_def io_defs)

lemma startup_invalid:
  assumes "(cin_extract input :: 'w::len word option) = None \<or> cin_extract input = Some (0 :: 'w word)"
  shows "startup env input w
     = (1 :: 'w word, fst (snd (startup env ''1 '' w :: 'w word \<times> _ \<times> _)),
        (snd (snd (startup env ''1 '' w :: 'w word \<times> _ \<times> _)))
          \<lparr>cerr := cerr w @ invalid_input_line\<rparr>)"
  by (simp add: startup_def read_invalid [OF assms] read_one_line Let_def io_defs)


lemma main_invalid:
  fixes m :: "'w::len measurement"
  assumes m: "m = measure_program \<or> m = measure_optimized"
    and dirs: "path_exists env (logDetailDir env)" "path_exists env (iterationDir env)"
    and inv: "(cin_extract input :: 'w word option) = None \<or> cin_extract input = Some (0 :: 'w word)"
  shows "main m env input w
     = map_option (\<lambda>(out, w'). (out, cerr_put invalid_input_line w')) (main m env ''1 '' w)"
proof -
  define t0 where "t0 = fst (snd (startup env ''1 '' w :: 'w word \<times> _ \<times> _))"
  define w1 where "w1 = snd (snd (startup env ''1 '' w :: 'w word \<times> _ \<times> _))"
  let ?e = "cerr w @ invalid_input_line"
  have st1: "startup env ''1 '' w = (1 :: 'w word, t0, w1)"
    using startup_one_any(1) [of env w, where 'w = 'w] unfolding t0_def w1_def
    by (metis prod.collapse)
  have st: "startup env input w = (1 :: 'w word, t0, w1\<lparr>cerr := ?e\<rparr>)"
    unfolding t0_def w1_def by (rule startup_invalid [OF inv])
  have c1: "cerr w1 = cerr w"
    unfolding w1_def by (rule startup_one_any(2))
  show ?thesis
  proof (cases "cycle_loop m env 1 1 0 [] w1")
    case None
    then show ?thesis
      using main_run [OF dirs st, of m] main_run [OF dirs st1, of m]
      by (simp add: cycle_loop_cerr_eq [OF m])
  next
    case (Some y)
    obtain rs s w2 where y: "y = (rs, s, w2)" by (cases y) auto
    from Some y have cl: "cycle_loop m env 1 1 0 [] w1 = Some (rs, s, w2)" by simp
    have "cerr w2 = cerr w1" using cycle_loop_cerr [OF cl m] by simp
    then have ce: "cerr (snd (final_summary env 1 t0 s w2)) = cerr w"
      by (simp add: final_summary_cerr c1)
    have "main m env input w
        = Some (\<lparr>exit_code = 0, cycle_results = rs,
                  summary = Some (fst (final_summary env 1 t0 s w2))\<rparr>,
                (snd (final_summary env 1 t0 s w2))\<lparr>cerr := ?e\<rparr>)"
      using main_run [OF dirs st, of m] cl
      by (simp add: cycle_loop_cerr_eq [OF m] final_summary_cerr_eq)
    moreover have "main m env ''1 '' w
        = Some (\<lparr>exit_code = 0, cycle_results = rs,
                  summary = Some (fst (final_summary env 1 t0 s w2))\<rparr>,
                snd (final_summary env 1 t0 s w2))"
      using main_run [OF dirs st1, of m] cl by simp
    ultimately show ?thesis by (simp add: cerr_put_def ce)
  qed
qed

lemma one_not_max:
  assumes "1 < LENGTH('w::len)"
  shows "(1 :: 'w word) \<noteq> - 1"
proof
  assume "(1 :: 'w word) = - 1"
  then have "(1 :: 'w word) + 1 = 0" by simp
  then have "(word_of_nat 2 :: 'w word) = 0" by simp
  then have "2 ^ LENGTH('w) dvd (2 :: nat)" by (simp only: word_of_nat_eq_0_iff)
  then have "(2 :: nat) ^ LENGTH('w) \<le> 2" by (rule dvd_imp_le) simp
  moreover have "(2 :: nat) ^ 2 \<le> 2 ^ LENGTH('w)"
    by (rule power_increasing) (use assms in simp_all)
  ultimately show False by simp
qed

lemma extract_examples:
  "(cin_extract ''abc'' :: 32 word option) = None"
  "(cin_extract [] :: 32 word option) = None"
  "(cin_extract ''0 '' :: 32 word option) = Some 0"
  "(cin_extract ''-5 '' :: 32 word option) = Some 4294967291"
  by (simp_all add: cin_extract_def strip_sign_def isspace_def isdigit_def
        digits_value_def digit_value_def Let_def)

text \<open>
  The part of claim C7 that the code keeps. When the extraction from standard input
  fails or yields zero, as it does for text that is not a number and for 0, the program
  substitutes a cycle count of 1 and writes the warning to the error stream. It does not
  abort: where the directories exist, the run is the run on the input 1 with the warning
  added to the error stream, in both variants, and when \<^verbatim>\<open>n_type\<close> has more than one bit
  and every measurement returns, it completes with exit code 0 and exactly one cycle.
\<close>

theorem invalid_input_runs_once:
  fixes m :: "'w::len measurement"
  assumes "m = measure_program \<or> m = measure_optimized"
    and "path_exists env (logDetailDir env)" and "path_exists env (iterationDir env)"
    and "(cin_extract input :: 'w word option) = None \<or> cin_extract input = Some (0 :: 'w word)"
  shows "read_cycles input w = (1 :: 'w word, cerr_put invalid_input_line w)
     \<and> main m env input w
         = map_option (\<lambda>(out, w'). (out, cerr_put invalid_input_line w')) (main m env ''1 '' w)
     \<and> (1 < LENGTH('w) \<and> (\<forall>c w. m env c 1 w \<noteq> None) \<longrightarrow>
          (\<exists>out w'. main m env input w = Some (out, w') \<and> exit_code out = 0
             \<and> map (unat \<circ> cycleIndex) (cycle_results out) = [1]))"
proof (intro conjI impI)
  show rd: "read_cycles input w = (1 :: 'w word, cerr_put invalid_input_line w)"
    using assms(4) by (rule read_invalid)
  show "main m env input w
      = map_option (\<lambda>(out, w'). (out, cerr_put invalid_input_line w')) (main m env ''1 '' w)"
    using assms by (rule main_invalid)
  assume a: "1 < LENGTH('w) \<and> (\<forall>c w. m env c 1 w \<noteq> None)"
  have acc: "fst (read_cycles input w) = (1 :: 'w word)" by (simp add: rd)
  have nomax: "(1 :: 'w word) \<noteq> - 1" using a by (simp add: one_not_max)
  have upt: "[1..<Suc (unat (1 :: 'w word))] = [1]" by simp
  have tot: "\<forall>c w. m env c 1 w \<noteq> None" using a by simp
  from main_completes [where m = m and env = env and input = input and w = w
      and cycles = "1 :: 'w word", OF assms(2,3) acc nomax tot]
  obtain out w' where "main m env input w = Some (out, w')" "exit_code out = 0"
    "map (unat \<circ> cycleIndex) (cycle_results out) = [1]"
    unfolding upt by (elim exE conjE) auto
  then show "\<exists>out w'. main m env input w = Some (out, w') \<and> exit_code out = 0
      \<and> map (unat \<circ> cycleIndex) (cycle_results out) = [1]"
    by (intro exI [of _ out] exI [of _ w'] conjI)
qed

theorem invalid_input_runs_once_witness:
  "read_cycles ''abc'' world0 = (1 :: 32 word, cerr_put invalid_input_line world0)
   \<and> (program ticking ''abc'' world0 :: (32 outcome \<times> world) option)
       = map_option (\<lambda>(out, w'). (out, cerr_put invalid_input_line w'))
           (program ticking ''1 '' world0)
   \<and> (\<exists>out w'. program ticking ''abc'' world0 = Some (out :: 32 outcome, w')
         \<and> exit_code out = 0 \<and> map (unat \<circ> cycleIndex) (cycle_results out) = [1])
   \<and> read_cycles ''0 '' world0 = (1 :: 32 word, cerr_put invalid_input_line world0)
   \<and> (program_optimized ticking ''0 '' world0 :: (32 outcome \<times> world) option)
       = map_option (\<lambda>(out, w'). (out, cerr_put invalid_input_line w'))
           (program_optimized ticking ''1 '' world0)"
proof -
  have dirs: "path_exists ticking (logDetailDir ticking)"
    "path_exists ticking (iterationDir ticking)"
    by (simp_all add: ticking_def)
  have tot: "\<forall>c w. measure_program ticking c (1 :: 32 word) w \<noteq> None"
    by (simp add: ticking_measure_program)
  have len: "1 < LENGTH(32)" by simp
  from invalid_input_runs_once [where m = "measure_program :: 32 measurement" and env = ticking
      and input = "''abc''" and w = world0, OF disjI1 [OF refl] dirs disjI1 [OF extract_examples(1)]]
    invalid_input_runs_once [where m = "measure_optimized :: 32 measurement" and env = ticking
      and input = "''0 ''" and w = world0, OF disjI2 [OF refl] dirs disjI2 [OF extract_examples(3)]]
    tot len
  show ?thesis unfolding program_def program_optimized_def by blast
qed

text \<open>
  Claim C7 at the input \<^verbatim>\<open>-5\<close>. The claim has a non-positive input replaced by 1, with a
  warning, and the programs test \<^verbatim>\<open>cycles < 1\<close> to that end. But \<^verbatim>\<open>cycles\<close> is of the
  unsigned \<^verbatim>\<open>n_type\<close>: the extraction reads \<^verbatim>\<open>-5\<close> as \<open>2 ^ w - 5\<close> and succeeds, the test
  does not fire, and the count 4,294,967,291 (with 32 bits; 18,446,744,073,709,551,611
  with 64) is taken as it is. No warning is written, and the run on the clocks of
  \<open>ticking\<close> executes that many cycles, not one.
\<close>

theorem negative_count_is_accepted:
  "read_cycles ''-5 '' world0 = (4294967291 :: 32 word, world0)
   \<and> read_cycles ''-5 '' world0 = (18446744073709551611 :: 64 word, world0)
   \<and> \<not> (4294967291 :: 32 word) < 1
   \<and> (\<exists>out w'. program ticking ''-5 '' world0 = Some (out :: 32 outcome, w')
         \<and> length (cycle_results out) = 4294967291 \<and> cerr w' = [])"
proof (intro conjI)
  show rd: "read_cycles ''-5 '' world0 = (4294967291 :: 32 word, world0)"
    by (simp add: read_cycles_def extract_examples(4))
  show "read_cycles ''-5 '' world0 = (18446744073709551611 :: 64 word, world0)"
    by (simp add: read_cycles_def cin_extract_def strip_sign_def isspace_def isdigit_def
        digits_value_def digit_value_def Let_def)
  show "\<not> (4294967291 :: 32 word) < 1" by simp
  have dirs: "path_exists ticking (logDetailDir ticking)"
    "path_exists ticking (iterationDir ticking)"
    by (simp_all add: ticking_def)
  have tot: "\<forall>c w. measure_program ticking c (4294967291 :: 32 word) w \<noteq> None"
    by (simp add: ticking_measure_program)
  have acc: "fst (read_cycles ''-5 '' world0) = (4294967291 :: 32 word)" by (simp add: rd)
  have nomax: "(4294967291 :: 32 word) \<noteq> - 1" by simp
  from main_runs_quietly [OF disjI1 [OF refl] dirs acc nomax tot]
  obtain out w' where run: "main measure_program ticking ''-5 '' world0 = Some (out :: 32 outcome, w')"
    and ix: "map (unat \<circ> cycleIndex) (cycle_results out) = [1..<Suc (unat (4294967291 :: 32 word))]"
    and ce: "cerr w' = cerr world0"
    unfolding rd snd_conv by (elim exE conjE) auto
  have "length (map (unat \<circ> cycleIndex) (cycle_results out)) = 4294967291"
    unfolding ix by simp
  then have ln: "length (cycle_results out) = 4294967291" by simp
  have ce': "cerr w' = []" using ce by (simp add: world0_def)
  show "\<exists>out w'. program ticking ''-5 '' world0 = Some (out :: 32 outcome, w')
         \<and> length (cycle_results out) = 4294967291 \<and> cerr w' = []"
    unfolding program_def
    by (rule exI [of _ out], rule exI [of _ w']) (intro conjI run ln ce')
qed

section \<open>Claim C10: counting in a fixed-width unsigned type\<close>

lemma read_five: "read_cycles ''5 '' w = (5 :: 32 word, w)"
  by (simp add: read_cycles_def cin_extract_def strip_sign_def isspace_def isdigit_def
        digits_value_def digit_value_def Let_def)

text \<open>
  Claim C10. The counters of a cycle and the running total are values of \<^verbatim>\<open>n_type\<close>, of
  some width \<open>w\<close>, and are accumulated modulo \<open>2 ^ w\<close>. In a run of either variant that
  ends with a summary, the exit code is 0, the total of the summary is the sum of the
  iteration counts of the cycles modulo \<open>2 ^ w\<close>, so that it is less than that sum as
  soon as the sum reaches \<open>2 ^ w\<close>, and the error stream holds what reading the input
  left there and nothing more. The iteration count of a cycle is the number of passes of
  its counting loop modulo \<open>2 ^ w\<close>: in \<^verbatim>\<open>program_optimized.cxx\<close> one pass for every reading
  of the steady clock but the first and the last, in \<^verbatim>\<open>program.cxx\<close> the \<open>n + 1\<close> passes
  that make the readings of the wall clock counted by \<open>reads_upto\<close>.
\<close>

theorem total_wraps_around:
  fixes out :: "'w::len outcome"
  shows
  "((m = measure_program \<or> m = measure_optimized) \<and> main m env input w = Some (out, w')
      \<and> summary out = Some sm \<longrightarrow>
      exit_code out = 0
    \<and> unat (totalIterations sm)
        = sum_list (map (unat \<circ> iterationCount) (cycle_results out)) mod 2 ^ LENGTH('w)
    \<and> (2 ^ LENGTH('w) \<le> sum_list (map (unat \<circ> iterationCount) (cycle_results out)) \<longrightarrow>
         unat (totalIterations sm) < sum_list (map (unat \<circ> iterationCount) (cycle_results out)))
    \<and> cerr w' = cerr (snd (read_cycles input w :: 'w word \<times> world)))
   \<and> (timed_optimized env c cs b w0 = Some (its :: 'w word, st, b', w1) \<longrightarrow>
        unat its = (steady_reads w1 - steady_reads w0 - 2) mod 2 ^ LENGTH('w))
   \<and> (timed_program env c cs b w0 = Some (its, st, b', w1) \<longrightarrow>
        (\<exists>n. unat its = Suc n mod 2 ^ LENGTH('w)
           \<and> sys_reads w1 = sys_reads w0 + 3 + reads_upto (0 :: 'w word) (Suc n)))"
proof (intro conjI impI)
  assume a: "(m = measure_program \<or> m = measure_optimized) \<and> main m env input w = Some (out, w')
      \<and> summary out = Some sm"
  then have m: "m = measure_program \<or> m = measure_optimized"
    and run: "main m env input w = Some (out, w')" and sm: "summary out = Some sm" by simp_all
  from main_summary_dirs [OF run sm]
  have dirs: "path_exists env (logDetailDir env)" "path_exists env (iterationDir env)"
    by simp_all
  from main_Some [OF dirs run] sm
  show ex: "exit_code out = 0"
    and tot: "unat (totalIterations sm)
        = sum_list (map (unat \<circ> iterationCount) (cycle_results out)) mod 2 ^ LENGTH('w)"
    by auto
  show "cerr w' = cerr (snd (read_cycles input w :: 'w word \<times> world))"
    using m dirs run by (rule main_quiet(1))
  assume "2 ^ LENGTH('w) \<le> sum_list (map (unat \<circ> iterationCount) (cycle_results out))"
  moreover have "sum_list (map (unat \<circ> iterationCount) (cycle_results out)) mod 2 ^ LENGTH('w)
      < 2 ^ LENGTH('w)" by simp
  ultimately show "unat (totalIterations sm)
      < sum_list (map (unat \<circ> iterationCount) (cycle_results out))"
    unfolding tot by (rule less_le_trans [rotated])
next
  assume "timed_optimized env c cs b w0 = Some (its, st, b', w1)"
  from timed_optimized_exit [OF this] obtain n where
    "its = of_nat n" "steady_reads w1 = steady_reads w0 + n + 2" by blast
  then show "unat its = (steady_reads w1 - steady_reads w0 - 2) mod 2 ^ LENGTH('w)"
    by (simp add: unat_of_nat)
next
  assume "timed_program env c cs b w0 = Some (its, st, b', w1)"
  from timed_program_exit [OF this] obtain n where
    "its = of_nat (Suc n)" "sys_reads w1 = sys_reads w0 + 3 + reads_upto (0 :: 'w word) (Suc n)"
    by blast
  then have "unat its = Suc n mod 2 ^ LENGTH('w)
      \<and> sys_reads w1 = sys_reads w0 + 3 + reads_upto (0 :: 'w word) (Suc n)"
    by (simp only: unat_of_nat)
  then show "\<exists>n. unat its = Suc n mod 2 ^ LENGTH('w)
           \<and> sys_reads w1 = sys_reads w0 + 3 + reads_upto (0 :: 'w word) (Suc n)" ..
qed


theorem total_wraps_around_witness:
  "\<exists>out w' sm. program_optimized nanosecond_steps ''5 '' world0 = Some (out :: 32 outcome, w')
      \<and> summary out = Some sm \<and> exit_code out = 0
      \<and> sum_list (map (unat \<circ> iterationCount) (cycle_results out)) = 4999999995
      \<and> 2 ^ 32 \<le> sum_list (map (unat \<circ> iterationCount) (cycle_results out))
      \<and> unat (totalIterations sm) = 4999999995 mod 2 ^ 32
      \<and> unat (totalIterations sm) < 4999999995
      \<and> cerr w' = []
      \<and> unat (1 :: 32 word) = (3 - steady_reads world0 - 2) mod 2 ^ 32
      \<and> (\<exists>n. unat (1 :: 32 word) = Suc n mod 2 ^ 32
            \<and> 4 = sys_reads world0 + 3 + reads_upto (0 :: 32 word) (Suc n))"
proof -
  from nanosecond_steps_run obtain out w' where
    run: "main measure_optimized nanosecond_steps ''5 '' world0 = Some (out :: 32 outcome, w')"
    and ts: "total_and_sum out = (Some 705032699, 4999999995)"
    unfolding program_optimized_def by auto
  from ts obtain sm where sm: "summary out = Some sm"
    and sum: "sum_list (map (unat \<circ> iterationCount) (cycle_results out)) = 4999999995"
    by (auto simp: total_and_sum_def)
  note t = total_wraps_around [where m = "measure_optimized :: 32 measurement"
      and env = nanosecond_steps and input = "''5 ''" and w = world0 and out = out and w' = w'
      and sm = sm, THEN conjunct1, rule_format, OF conjI [OF disjI2 [OF refl] conjI [OF run sm]]]
  have ge: "2 ^ 32 \<le> sum_list (map (unat \<circ> iterationCount) (cycle_results out))"
    unfolding sum by simp
  have ex: "exit_code out = 0" using t by simp
  have tot: "unat (totalIterations sm) = 4999999995 mod 2 ^ 32" using t sum by simp
  have lt: "unat (totalIterations sm) < 4999999995" using t ge sum by simp
  have ce: "cerr w' = []" using t by (simp add: read_five world0_def)
  have a: "unat (1 :: 32 word) = (3 - steady_reads world0 - 2) mod 2 ^ 32"
    using total_wraps_around [where env = ticking and c = "1 :: 32 word" and cs = 1
        and b = "[]" and ?w0.0 = world0 and its = "1 :: 32 word"
        and st = "dateTimeToString ticking 1000000000" and b' = "[]"
        and ?w1.0 = "world0\<lparr>sys_reads := 2, steady_reads := 3,
           cout := ready_line (dateTimeToString ticking 0)\<rparr>",
        THEN conjunct2, THEN conjunct1] ticking_timed_optimized
    by simp
  have b: "\<exists>n. unat (1 :: 32 word) = Suc n mod 2 ^ 32
            \<and> 4 = sys_reads world0 + 3 + reads_upto (0 :: 32 word) (Suc n)"
    using total_wraps_around [where env = ticking and c = "1 :: 32 word" and cs = 1
        and b = "[]" and ?w0.0 = world0 and its = "1 :: 32 word"
        and st = "dateTimeToString ticking 1000000000" and b' = "[]"
        and ?w1.0 = "world0\<lparr>sys_reads := 4, cout := ready_line (dateTimeToString ticking 0)\<rparr>",
        THEN conjunct2, THEN conjunct2] ticking_timed_program
    by simp
  show ?thesis
    unfolding program_optimized_def
    by (rule exI [of _ out], rule exI [of _ w'], rule exI [of _ sm])
      (intro conjI run sm ex sum ge tot lt ce a b)
qed

end
